theory Spec2Isabelle
  imports Main "HOL-Library.Word" "HOL-Library.Monad_Syntax"
begin

section \<open>Bytes, runes and errors\<close>

text \<open>
  A Go \<^verbatim>\<open>[]byte\<close> is a list of 8-bit words. A rune is a Unicode code point; every
  rune the program handles comes out of \<^verbatim>\<open>utf8.DecodeRune\<close> or a case table, so it is a
  natural number. The error values are the ones \<^verbatim>\<open>main.go\<close> and the library calls it
  makes can return.
\<close>

type_synonym byte = "8 word"
type_synonym rune = nat

datatype error =
    EOF
  | ErrInvalidConvUnknown string
  | ErrInvalidConvBoth
  | ErrSkipping
  | ErrNotExist
  | ErrIO string

section \<open>The library functions of unicode/utf8, unicode and strings\<close>

definition RuneError :: rune where
  "RuneError = 0xFFFD"

text \<open>
  \<^verbatim>\<open>utf8.DecodeRune\<close>: the first rune of the slice and its width in bytes. An empty
  slice gives \<^verbatim>\<open>(RuneError, 0)\<close>, an invalid or incomplete encoding gives
  \<^verbatim>\<open>(RuneError, 1)\<close>. The lead byte fixes the width (\<open>decode2\<close>, \<open>decode3\<close>,
  \<open>decode4\<close>; too few bytes are an incomplete encoding) and the range accepted for the
  second byte (the library's \<^verbatim>\<open>first\<close> and \<^verbatim>\<open>acceptRanges\<close> tables); the masks and
  shifts of the library are written as \<open>mod\<close> and multiplication on the bytes' values.
\<close>

definition cont_byte :: "nat \<Rightarrow> bool" where
  "cont_byte b = (0x80 \<le> b \<and> b \<le> 0xBF)"

definition accept :: "nat \<Rightarrow> nat \<Rightarrow> bool" where
  "accept b0 b1 =
     (if b0 = 0xE0 then 0xA0 \<le> b1 \<and> b1 \<le> 0xBF
      else if b0 = 0xED then 0x80 \<le> b1 \<and> b1 \<le> 0x9F
      else if b0 = 0xF0 then 0x90 \<le> b1 \<and> b1 \<le> 0xBF
      else if b0 = 0xF4 then 0x80 \<le> b1 \<and> b1 \<le> 0x8F
      else 0x80 \<le> b1 \<and> b1 \<le> 0xBF)"

definition decode2 :: "nat \<Rightarrow> byte list \<Rightarrow> rune \<times> nat" where
  "decode2 b0 ps =
     (case ps of
        p1 # _ \<Rightarrow>
          if \<not> accept b0 (unat p1) then (RuneError, 1)
          else ((b0 mod 32) * 64 + unat p1 mod 64, 2)
      | _ \<Rightarrow> (RuneError, 1))"

definition decode3 :: "nat \<Rightarrow> byte list \<Rightarrow> rune \<times> nat" where
  "decode3 b0 ps =
     (case ps of
        p1 # p2 # _ \<Rightarrow>
          if \<not> accept b0 (unat p1) then (RuneError, 1)
          else if \<not> cont_byte (unat p2) then (RuneError, 1)
          else ((b0 mod 16) * 4096 + (unat p1 mod 64) * 64 + unat p2 mod 64, 3)
      | _ \<Rightarrow> (RuneError, 1))"

definition decode4 :: "nat \<Rightarrow> byte list \<Rightarrow> rune \<times> nat" where
  "decode4 b0 ps =
     (case ps of
        p1 # p2 # p3 # _ \<Rightarrow>
          if \<not> accept b0 (unat p1) then (RuneError, 1)
          else if \<not> cont_byte (unat p2) then (RuneError, 1)
          else if \<not> cont_byte (unat p3) then (RuneError, 1)
          else ((b0 mod 8) * 262144 + (unat p1 mod 64) * 4096
                  + (unat p2 mod 64) * 64 + unat p3 mod 64, 4)
      | _ \<Rightarrow> (RuneError, 1))"

fun DecodeRune :: "byte list \<Rightarrow> rune \<times> nat" where
  "DecodeRune [] = (RuneError, 0)"
| "DecodeRune (p0 # ps) =
     (let b0 = unat p0 in
      if b0 < 0x80 then (b0, 1)
      else if b0 < 0xC2 \<or> 0xF4 < b0 then (RuneError, 1)
      else if b0 < 0xE0 then decode2 b0 ps
      else if b0 < 0xF0 then decode3 b0 ps
      else decode4 b0 ps)"

text \<open>
  \<^verbatim>\<open>utf8.AppendRune\<close>, which \<^verbatim>\<open>string(r)\<close> and \<^verbatim>\<open>strings.Map\<close> use to write a rune:
  a surrogate or a value above \<^verbatim>\<open>MaxRune\<close> is written as \<^verbatim>\<open>RuneError\<close>.
\<close>

definition EncodeRune :: "rune \<Rightarrow> byte list" where
  "EncodeRune r =
     (if r \<le> 0x7F then [of_nat r]
      else if r \<le> 0x7FF then [of_nat (0xC0 + r div 64), of_nat (0x80 + r mod 64)]
      else if 0x10FFFF < r \<or> (0xD800 \<le> r \<and> r \<le> 0xDFFF) then [0xEF, 0xBF, 0xBD]
      else if r \<le> 0xFFFF then
        [of_nat (0xE0 + r div 4096), of_nat (0x80 + r div 64 mod 64), of_nat (0x80 + r mod 64)]
      else
        [of_nat (0xF0 + r div 262144), of_nat (0x80 + r div 4096 mod 64),
         of_nat (0x80 + r div 64 mod 64), of_nat (0x80 + r mod 64)])"

text \<open>
  \<^verbatim>\<open>unicode.IsSpace\<close>: in Latin-1 the eight characters of the switch, above it the
  \<^verbatim>\<open>White_Space\<close> range table.
\<close>

definition IsSpace :: "rune \<Rightarrow> bool" where
  "IsSpace r =
     (if r \<le> 0xFF then r \<in> {0x09, 0x0A, 0x0B, 0x0C, 0x0D, 0x20, 0x85, 0xA0}
      else r = 0x1680 \<or> (0x2000 \<le> r \<and> r \<le> 0x200A) \<or> r = 0x2028 \<or> r = 0x2029
           \<or> r = 0x202F \<or> r = 0x205F \<or> r = 0x3000)"

text \<open>
  \<^verbatim>\<open>unicode.ToUpper\<close> and \<^verbatim>\<open>unicode.ToLower\<close> answer ASCII themselves and look every
  other rune up in the \<^verbatim>\<open>CaseRanges\<close> table of the Unicode database. The table is not
  part of the program: it is the parameter \<open>uc\<close> of everything below, a pair of the
  upper-case and the lower-case mapping of the runes above ASCII.
\<close>

type_synonym case_tables = "(rune \<Rightarrow> rune) \<times> (rune \<Rightarrow> rune)"

definition unicode_ToUpper :: "case_tables \<Rightarrow> rune \<Rightarrow> rune" where
  "unicode_ToUpper uc r =
     (if r \<le> 0x7F then (if 0x61 \<le> r \<and> r \<le> 0x7A then r - 0x20 else r) else fst uc r)"

definition unicode_ToLower :: "case_tables \<Rightarrow> rune \<Rightarrow> rune" where
  "unicode_ToLower uc r =
     (if r \<le> 0x7F then (if 0x41 \<le> r \<and> r \<le> 0x5A then r + 0x20 else r) else snd uc r)"

text \<open>
  \<^verbatim>\<open>[]byte(strings.ToUpper(string(r)))\<close> for one decoded rune: the mapped rune,
  written in UTF-8.
\<close>

definition case_bytes :: "case_tables \<Rightarrow> bool \<Rightarrow> rune \<Rightarrow> byte list" where
  "case_bytes uc toUpper r =
     (if toUpper then EncodeRune (unicode_ToUpper uc r) else EncodeRune (unicode_ToLower uc r))"

text \<open>\<^verbatim>\<open>strings.Split(s, ",")\<close>: the pieces between the commas, at least one piece.\<close>

fun Split_comma :: "string \<Rightarrow> string list" where
  "Split_comma [] = [[]]"
| "Split_comma (c # cs) =
     (if c = CHR '','' then [] # Split_comma cs
      else (case Split_comma cs of
              [] \<Rightarrow> [[c]]
            | w # ws \<Rightarrow> (c # w) # ws))"

section \<open>validatedConvs\<close>

definition convMap :: "string set" where
  "convMap = {''lower_case'', ''upper_case'', ''trim_spaces''}"

text \<open>
  The \<^verbatim>\<open>for _, val := range convValues\<close> loop with its two flags; it returns at the first
  unknown name.
\<close>

fun conv_loop :: "string list \<Rightarrow> bool \<Rightarrow> bool \<Rightarrow> error + (bool \<times> bool)" where
  "conv_loop [] hasLower hasUpper = Inr (hasLower, hasUpper)"
| "conv_loop (val # vals) hasLower hasUpper =
     (if val \<notin> convMap then Inl (ErrInvalidConvUnknown val)
      else if val = ''lower_case'' then conv_loop vals True hasUpper
      else if val = ''upper_case'' then conv_loop vals hasLower True
      else conv_loop vals hasLower hasUpper)"

definition validatedConvs :: "string \<Rightarrow> error + string list" where
  "validatedConvs convs =
     (if length convs = 0 then Inr []
      else
        (let convValues = Split_comma convs in
         case conv_loop convValues False False of
           Inl e \<Rightarrow> Inl e
         | Inr (hasLower, hasUpper) \<Rightarrow>
             if hasLower \<and> hasUpper then Inl ErrInvalidConvBoth else Inr convValues))"

section \<open>Readers\<close>

text \<open>
  \<^verbatim>\<open>Read(p)\<close> of an \<^verbatim>\<open>io.Reader\<close> is modelled on the length \<open>k\<close> of \<open>p\<close>. It answers
  \<open>(n, data, err)\<close>: the count \<open>n\<close> and the error it returns, and \<open>data\<close>, the bytes
  it stored into \<open>p[0:length data]\<close>; the rest of \<open>p\<close> is left as it was.

  The underlying source (\<^verbatim>\<open>os.Stdin\<close> or the opened file, an \<^verbatim>\<open>*os.File\<close>) is a file
  offset and the list of what its reads will still meet: bytes that become available
  together, or an error of the system call. \<^verbatim>\<open>File.Read\<close> never returns bytes together
  with an error (\<^verbatim>\<open>poll.FD.Read\<close> sets \<open>n\<close> to 0 when the system call fails), and a read
  into an empty slice returns \<^verbatim>\<open>(0, nil)\<close> at once. Otherwise a read takes at most \<open>k\<close>
  bytes of the first entry; what it leaves stays for the next read. When nothing is
  left the source answers \<^verbatim>\<open>(0, io.EOF)\<close>. An entry of no bytes is a read that returns
  \<^verbatim>\<open>(0, nil)\<close>: \<^verbatim>\<open>io.Reader\<close> allows it, a file does not do it, and what is proved below
  for every list of chunks holds with such reads as well.
\<close>

type_synonym read_result = "nat \<times> byte list \<times> error option"

datatype event = Chunk "byte list" | ReadError error

fun src_read :: "nat \<Rightarrow> nat \<Rightarrow> event list \<Rightarrow> read_result \<times> nat \<times> event list" where
  "src_read k pos [] =
     (if k = 0 then ((0, [], None), pos, []) else ((0, [], Some EOF), pos, []))"
| "src_read k pos (Chunk d # evs) =
     (if k = 0 then ((0, [], None), pos, Chunk d # evs)
      else if length d \<le> k then ((length d, d, None), pos + length d, evs)
      else ((k, take k d, None), pos + k, Chunk (drop k d) # evs))"
| "src_read k pos (ReadError e # evs) =
     (if k = 0 then ((0, [], None), pos, ReadError e # evs)
      else ((0, [], Some e), pos, evs))"

text \<open>
  The readers of the program: the source, \<^verbatim>\<open>io.LimitedReader\<close> (fields \<^verbatim>\<open>R\<close>, \<^verbatim>\<open>N\<close>),
  \<^verbatim>\<open>CaseReader\<close> (fields \<^verbatim>\<open>reader\<close>, \<^verbatim>\<open>toUpper\<close>, \<^verbatim>\<open>mapped\<close>, \<^verbatim>\<open>buffer\<close>) and
  \<^verbatim>\<open>TrimReader\<close> (fields \<^verbatim>\<open>reader\<close>, \<^verbatim>\<open>buffer\<close>, \<^verbatim>\<open>trimmed\<close>, \<^verbatim>\<open>skippedSpaces\<close>).
\<close>

datatype reader =
    Src nat "event list"
  | LimitedReader reader int
  | CaseReader reader bool "byte list" "byte list"
  | TrimReader reader "byte list" "byte list" bool

text \<open>
  \<^verbatim>\<open>copyFromChecked(dst, src)\<close> on the length of \<open>dst\<close>: the bytes copied into
  \<open>dst\<close>, the rest of \<open>src\<close>, and the count.
\<close>

definition copyFromChecked :: "nat \<Rightarrow> byte list \<Rightarrow> byte list \<times> byte list \<times> nat" where
  "copyFromChecked dst_len src =
     (let len = min dst_len (length src) in (take len src, drop len src, len))"

text \<open>
  \<^verbatim>\<open>buffer[lo:hi]\<close>. Go panics when the bounds are out of range; the loops below only
  slice up to the end of a rune that \<open>DecodeRune\<close> has just decoded, which lies inside
  the buffer (lemma \<open>DecodeRune_size_le\<close>).
\<close>

definition subslice :: "byte list \<Rightarrow> nat \<Rightarrow> nat \<Rightarrow> byte list" where
  "subslice buffer lo hi = take (hi - lo) (drop lo buffer)"

text \<open>
  What the caller of \<^verbatim>\<open>reader.Read(buffer)\<close> finds in \<^verbatim>\<open>buffer[:n]\<close> when the buffer
  was \<open>old\<close> before the call.
\<close>

definition filled :: "byte list \<Rightarrow> read_result \<Rightarrow> byte list" where
  "filled old res = (case res of (n, d, e) \<Rightarrow> take n (d @ drop (length d) old))"

lemma decode2_size: "snd (decode2 b0 ps) \<le> Suc (length ps) \<and> 0 < snd (decode2 b0 ps)"
  by (cases ps) (simp_all add: decode2_def)
lemma decode3_size: "snd (decode3 b0 ps) \<le> Suc (length ps) \<and> 0 < snd (decode3 b0 ps)"
  by (cases ps rule: remdups_adj.cases) (simp_all add: decode3_def)
lemma decode4_size: "snd (decode4 b0 ps) \<le> Suc (length ps) \<and> 0 < snd (decode4 b0 ps)"
proof (cases ps)
  case Nil then show ?thesis by (simp add: decode4_def)
next
  case (Cons p1 qs)
  then show ?thesis
    by (cases qs rule: remdups_adj.cases) (simp_all add: decode4_def)
qed

lemma DecodeRune_size_pos: "xs \<noteq> [] \<Longrightarrow> 0 < snd (DecodeRune xs)"
  by (cases xs) (simp_all add: Let_def decode2_size decode3_size decode4_size)

lemma DecodeRune_size_le: "snd (DecodeRune xs) \<le> length xs"
  by (cases xs) (simp_all add: Let_def decode2_size decode3_size decode4_size)

text \<open>The decoding loop of \<^verbatim>\<open>CaseReader.Read\<close>: it returns the final \<open>i\<close> and \<open>mapped\<close>.\<close>

function case_loop ::
  "case_tables \<Rightarrow> bool \<Rightarrow> byte list \<Rightarrow> nat \<Rightarrow> byte list \<Rightarrow> nat \<times> byte list" where
  "case_loop uc toUpper buffer i mapped =
     (if i < length buffer then
        (case DecodeRune (drop i buffer) of
           (r, runeSize) \<Rightarrow>
             if r = RuneError then (i, mapped)
             else case_loop uc toUpper buffer (i + runeSize) (mapped @ case_bytes uc toUpper r))
      else (i, mapped))"
  by pat_completeness auto
termination
proof (relation "measure (\<lambda>(uc, toUpper, buffer, i, mapped). length buffer - i)", goal_cases)
  case 1
  show ?case by simp
next
  case (2 uc toUpper buffer i mapped r runeSize)
  then have "0 < runeSize"
    using DecodeRune_size_pos [of "drop i buffer"] by (metis drop_eq_Nil2 not_le snd_conv)
  with 2 show ?case by simp
qed

text \<open>
  The decoding loop of \<^verbatim>\<open>TrimReader.Read\<close>: it returns the final \<open>firstSpacePos\<close>,
  \<open>trimmed\<close> and \<open>skippedSpaces\<close>.
\<close>

function trim_loop ::
  "byte list \<Rightarrow> nat \<Rightarrow> nat \<Rightarrow> byte list \<Rightarrow> bool \<Rightarrow> nat \<times> byte list \<times> bool" where
  "trim_loop buffer i firstSpacePos trimmed skippedSpaces =
     (if i < length buffer then
        (case DecodeRune (drop i buffer) of
           (r, runeSize) \<Rightarrow>
             if r = RuneError then (firstSpacePos, trimmed, skippedSpaces)
             else if IsSpace r then
               trim_loop buffer (i + runeSize) firstSpacePos trimmed skippedSpaces
             else if skippedSpaces then
               trim_loop buffer (i + runeSize) (i + runeSize)
                 (trimmed @ subslice buffer firstSpacePos (i + runeSize)) skippedSpaces
             else
               trim_loop buffer (i + runeSize) (i + runeSize)
                 (trimmed @ subslice buffer i (i + runeSize)) True)
      else (firstSpacePos, trimmed, skippedSpaces))"
  by pat_completeness auto
termination
proof (relation "measure (\<lambda>(buffer, i, fsp, trimmed, sk). length buffer - i)", goal_cases)
  case 1
  show ?case by simp
next
  case (2 buffer i fsp trimmed sk r runeSize)
  then have "0 < runeSize"
    using DecodeRune_size_pos [of "drop i buffer"] by (metis drop_eq_Nil2 not_le snd_conv)
  with 2 show ?case by simp
next
  case (3 buffer i fsp trimmed sk r runeSize)
  then have "0 < runeSize"
    using DecodeRune_size_pos [of "drop i buffer"] by (metis drop_eq_Nil2 not_le snd_conv)
  with 3 show ?case by simp
next
  case (4 buffer i fsp trimmed sk r runeSize)
  then have "0 < runeSize"
    using DecodeRune_size_pos [of "drop i buffer"] by (metis drop_eq_Nil2 not_le snd_conv)
  with 4 show ?case by simp
qed

declare case_loop.simps [simp del]

declare trim_loop.simps [simp del]

text \<open>
  \<^verbatim>\<open>Read\<close> of each reader. \<^verbatim>\<open>CaseReader.Read\<close> and \<^verbatim>\<open>TrimReader.Read\<close> end by calling
  themselves, and nothing bounds the number of calls (an upstream that keeps answering
  \<^verbatim>\<open>(0, nil)\<close> never lets them return): the function is partial, \<open>None\<close> is a call
  that does not return.
\<close>

partial_function (option) Read :: "case_tables \<Rightarrow> nat \<Rightarrow> reader \<Rightarrow> (read_result \<times> reader) option" where
  "Read uc k rd =
     (case rd of
        Src pos evs \<Rightarrow>
          (case src_read k pos evs of (res, pos', evs') \<Rightarrow> Some (res, Src pos' evs'))
      | LimitedReader R N \<Rightarrow>
          if N \<le> 0 then Some ((0, [], Some EOF), LimitedReader R N)
          else do {
            (res, R') \<leftarrow> Read uc (if int k > N then nat N else k) R;
            Some (res, LimitedReader R' (N - int (fst res)))
          }
      | CaseReader reader toUpper mapped buffer \<Rightarrow>
          if length mapped \<noteq> 0 then
            (case copyFromChecked k mapped of
               (d, mapped', n) \<Rightarrow> Some ((n, d, None), CaseReader reader toUpper mapped' buffer))
          else do {
            (res, reader') \<leftarrow> Read uc k reader;
            (case res of
               (n, d, err) \<Rightarrow>
                 if err \<noteq> None then Some ((n, [], err), CaseReader reader' toUpper mapped buffer)
                 else
                   (let buffer1 = buffer @ filled (replicate k 0) res in
                    case case_loop uc toUpper buffer1 0 mapped of
                      (i, mapped1) \<Rightarrow>
                        Read uc k (CaseReader reader' toUpper mapped1 (drop i buffer1))))
          }
      | TrimReader reader buffer trimmed skippedSpaces \<Rightarrow>
          if length trimmed \<noteq> 0 then
            (case copyFromChecked k trimmed of
               (d, trimmed', n) \<Rightarrow>
                 Some ((n, d, None), TrimReader reader buffer trimmed' skippedSpaces))
          else do {
            (res, reader') \<leftarrow> Read uc k reader;
            (case res of
               (n, d, err) \<Rightarrow>
                 if err \<noteq> None then
                   Some ((n, [], err), TrimReader reader' buffer trimmed skippedSpaces)
                 else
                   (let buffer1 = buffer @ filled (replicate k 0) res in
                    case trim_loop buffer1 0 0 trimmed skippedSpaces of
                      (firstSpacePos, trimmed1, skippedSpaces1) \<Rightarrow>
                        Read uc k
                          (TrimReader reader' (drop firstSpacePos buffer1) trimmed1 skippedSpaces1)))
          })"

declare Read.simps [code]

section \<open>The world, the writer and the copy loop\<close>

text \<open>
  The files by path, the paths at which \<^verbatim>\<open>os.Create\<close> fails (a missing directory, no
  permission) with the error it reports there, the reads standard input will deliver,
  and what has been written to standard output.
\<close>

record world =
  files :: "string \<rightharpoonup> byte list"
  create_errors :: "string \<rightharpoonup> error"
  stdin :: "event list"
  stdout :: "byte list"

text \<open>
  The \<^verbatim>\<open>io.Writer\<close> that \<^verbatim>\<open>createWriter\<close> returns: \<^verbatim>\<open>os.Stdout\<close>, the created file, or
  the nil interface value.
\<close>

datatype writer = Stdout | FileWriter string | NilWriter

text \<open>\<^verbatim>\<open>dst.Write(b)\<close>; a call on the nil interface panics, which is \<open>None\<close>.\<close>

fun writer_Write :: "writer \<Rightarrow> byte list \<Rightarrow> world \<Rightarrow> world option" where
  "writer_Write Stdout b w = Some (w\<lparr>stdout := stdout w @ b\<rparr>)"
| "writer_Write (FileWriter path) b w =
     Some (w\<lparr>files := (files w)(path \<mapsto> (case files w path of None \<Rightarrow> b | Some c \<Rightarrow> c @ b))\<rparr>)"
| "writer_Write NilWriter b w = None"

datatype copy_end = Copied "error option" | Panicked

text \<open>
  The loop of \<^verbatim>\<open>io.CopyBuffer\<close> (neither side has \<^verbatim>\<open>WriteTo\<close> or \<^verbatim>\<open>ReadFrom\<close>: main
  hides the writer's in \<^verbatim>\<open>struct{ io.Writer }\<close>): read into \<open>buf\<close>, write \<open>buf[0:nr]\<close>
  when \<open>nr > 0\<close>, stop at the first error of the reader, which is reported unless it is
  \<^verbatim>\<open>io.EOF\<close>. The writers of the model write everything they are given.
\<close>

partial_function (option) copyBuffer ::
  "case_tables \<Rightarrow> writer \<Rightarrow> reader \<Rightarrow> byte list \<Rightarrow> world \<Rightarrow> (copy_end \<times> reader \<times> world) option" where
  "copyBuffer uc dst src buf w =
     do {
       (res, src') \<leftarrow> Read uc (length buf) src;
       (case res of
          (nr, d, er) \<Rightarrow>
            (let buf' = d @ drop (length d) buf in
             case (if 0 < nr then writer_Write dst (take nr buf') w else Some w) of
               None \<Rightarrow> Some (Panicked, src', w)
             | Some w' \<Rightarrow>
                 if er \<noteq> None then Some (Copied (if er \<noteq> Some EOF then er else None), src', w')
                 else copyBuffer uc dst src' buf' w'))
     }"

declare copyBuffer.simps [code]

section \<open>CreateReader, createWriter and main\<close>

text \<open>
  \<^verbatim>\<open>io.CopyN(io.Discard, reader, n)\<close> is \<^verbatim>\<open>io.Copy(io.Discard, io.LimitReader(reader, n))\<close>,
  which runs \<^verbatim>\<open>discard.ReadFrom\<close>: reads of 8192 bytes until an error, \<^verbatim>\<open>io.EOF\<close> ending
  the copy without an error. \<^verbatim>\<open>CopyN\<close> then turns a short copy into \<^verbatim>\<open>io.EOF\<close>.
\<close>

partial_function (option) discard_ReadFrom ::
  "case_tables \<Rightarrow> reader \<Rightarrow> int \<Rightarrow> (int \<times> error option \<times> reader) option" where
  "discard_ReadFrom uc r n =
     do {
       (res, r') \<leftarrow> Read uc 8192 r;
       (case res of
          (readSize, d, err) \<Rightarrow>
            if err \<noteq> None then
              (if err = Some EOF then Some (n + int readSize, None, r')
               else Some (n + int readSize, err, r'))
            else discard_ReadFrom uc r' (n + int readSize))
     }"

declare discard_ReadFrom.simps [code]

definition io_CopyN_discard ::
  "case_tables \<Rightarrow> reader \<Rightarrow> int \<Rightarrow> (int \<times> error option \<times> reader) option" where
  "io_CopyN_discard uc src n =
     do {
       (written, err, lr) \<leftarrow> discard_ReadFrom uc (LimitedReader src n) 0;
       (let src' = (case lr of LimitedReader R N \<Rightarrow> R | _ \<Rightarrow> src) in
        if written = n then Some (n, None, src')
        else if written < n \<and> err = None then Some (written, Some EOF, src')
        else Some (written, err, src'))
     }"

record Options =
  From :: string
  To :: string
  Offset :: "64 word"
  Limit :: "64 word"
  BlockSize :: "64 word"
  Conv :: "string list"

text \<open>
  \<^verbatim>\<open>ParseFlags\<close>, on the values the \<^verbatim>\<open>flag\<close> package has parsed: the five typed flags
  and the string of \<^verbatim>\<open>-conv\<close>.
\<close>

definition ParseFlags ::
  "string \<Rightarrow> string \<Rightarrow> 64 word \<Rightarrow> 64 word \<Rightarrow> 64 word \<Rightarrow> string \<Rightarrow> error + Options" where
  "ParseFlags from_flag to_flag offset_flag limit_flag block_size_flag convs =
     (case validatedConvs convs of
        Inl err \<Rightarrow> Inl err
      | Inr convValues \<Rightarrow>
          Inr \<lparr>From = from_flag, To = to_flag, Offset = offset_flag, Limit = limit_flag,
               BlockSize = block_size_flag, Conv = convValues\<rparr>)"

text \<open>
  \<^verbatim>\<open>os.Open\<close> of a regular file: its reads deliver the content, as much as the
  buffer takes at a time.
\<close>

definition os_Open :: "world \<Rightarrow> string \<Rightarrow> error + reader" where
  "os_Open w path =
     (case files w path of
        None \<Rightarrow> Inl ErrNotExist
      | Some content \<Rightarrow> Inr (Src 0 (if content = [] then [] else [Chunk content])))"

text \<open>The \<^verbatim>\<open>switch val\<close> in the loop over \<^verbatim>\<open>opts.Conv\<close>.\<close>

definition wrap_conv :: "reader \<Rightarrow> string \<Rightarrow> reader" where
  "wrap_conv reader val =
     (if val = ''lower_case'' then CaseReader reader False [] []
      else if val = ''upper_case'' then CaseReader reader True [] []
      else if val = ''trim_spaces'' then TrimReader reader [] [] False
      else reader)"

text \<open>
  \<^verbatim>\<open>CreateReader\<close>. \<^verbatim>\<open>int64(opts.Offset)\<close> and \<^verbatim>\<open>int64(opts.Limit)\<close> read the
  unsigned flags as two's complement. The second component is the source after the
  skip, when it was opened.
\<close>

definition CreateReader ::
  "case_tables \<Rightarrow> Options \<Rightarrow> world \<Rightarrow> ((error + reader) \<times> reader option) option" where
  "CreateReader uc opts w =
     (case (if From opts = [] then Inr (Src 0 (stdin w)) else os_Open w (From opts)) of
        Inl err \<Rightarrow> Some (Inl err, None)
      | Inr reader \<Rightarrow>
          do {
            (n, err, reader') \<leftarrow> io_CopyN_discard uc reader (sint (Offset opts));
            (case err of
               Some e \<Rightarrow> Some (Inl e, Some reader')
             | None \<Rightarrow>
                 if n < sint (Offset opts) then Some (Inl ErrSkipping, Some reader')
                 else Some (Inr (foldl wrap_conv (LimitedReader reader' (sint (Limit opts)))
                                   (Conv opts)),
                            Some reader'))
          })"

text \<open>
  \<^verbatim>\<open>os.Stat\<close> answers nil for a path that exists. \<^verbatim>\<open>os.Create\<close> makes the file empty,
  or fails and leaves the world as it is; the writer it returns with an error is never
  used.
\<close>

definition os_Stat :: "world \<Rightarrow> string \<Rightarrow> error option" where
  "os_Stat w path = (if files w path = None then Some ErrNotExist else None)"

definition os_IsNotExist :: "error option \<Rightarrow> bool" where
  "os_IsNotExist err = (err = Some ErrNotExist)"

definition os_Create :: "string \<Rightarrow> world \<Rightarrow> (writer \<times> error option) \<times> world" where
  "os_Create path w =
     (case create_errors w path of
        Some err \<Rightarrow> ((NilWriter, Some err), w)
      | None \<Rightarrow> ((FileWriter path, None), w\<lparr>files := (files w)(path \<mapsto> [])\<rparr>))"

definition createWriter :: "string \<Rightarrow> world \<Rightarrow> (writer \<times> error option) \<times> world" where
  "createWriter to_path w =
     (if to_path = [] then ((Stdout, None), w)
      else
        (let err = os_Stat w to_path in
         if \<not> os_IsNotExist err then ((NilWriter, err), w)
         else os_Create to_path w))"

text \<open>
  \<^verbatim>\<open>make([]byte, opts.BlockSize)\<close> panics with \<^verbatim>\<open>makeslice: len out of range\<close> when the
  length exceeds the runtime's \<^verbatim>\<open>maxAlloc\<close>, which is \<open>2^48\<close> bytes on the 64-bit
  platforms (linux/amd64, linux/arm64). Below it the allocation is taken to succeed.
\<close>

definition maxAlloc :: nat where
  "maxAlloc = 2 ^ 48"

text \<open>
  How the process ends: the exit status (a Go panic ends it with status 2), the line
  main starts on the error stream, the reader as main left it (none when none was
  built), and the world. The arguments of \<^verbatim>\<open>io.CopyBuffer\<close> are evaluated before the
  call, so the panic of \<^verbatim>\<open>make\<close> comes before the one for an empty buffer.
\<close>

record outcome =
  exit_code :: nat
  stderr_line :: string
  final_reader :: "reader option"
  final_world :: world

definition main ::
  "case_tables \<Rightarrow> string \<Rightarrow> string \<Rightarrow> 64 word \<Rightarrow> 64 word \<Rightarrow> 64 word \<Rightarrow> string \<Rightarrow> world
     \<Rightarrow> outcome option" where
  "main uc from_flag to_flag offset_flag limit_flag block_size_flag convs w =
     (case ParseFlags from_flag to_flag offset_flag limit_flag block_size_flag convs of
        Inl err \<Rightarrow>
          Some \<lparr>exit_code = 1, stderr_line = ''can not parse flags:'',
                final_reader = None, final_world = w\<rparr>
      | Inr opts \<Rightarrow>
          do {
            (cr, src) \<leftarrow> CreateReader uc opts w;
            (case cr of
               Inl err \<Rightarrow>
                 Some \<lparr>exit_code = 1, stderr_line = ''can not create reader:'',
                       final_reader = src, final_world = w\<rparr>
             | Inr reader \<Rightarrow>
                 (case createWriter (To opts) w of
                    ((writer, Some err), w') \<Rightarrow>
                      Some \<lparr>exit_code = 1, stderr_line = ''can not create writer:'',
                            final_reader = Some reader, final_world = w'\<rparr>
                  | ((writer, None), w') \<Rightarrow>
                      if maxAlloc < unat (BlockSize opts) then
                        Some \<lparr>exit_code = 2,
                              stderr_line = ''panic: runtime error: makeslice: len out of range'',
                              final_reader = Some reader, final_world = w'\<rparr>
                      else if BlockSize opts = 0 then
                        Some \<lparr>exit_code = 2, stderr_line = ''panic: empty buffer in CopyBuffer'',
                              final_reader = Some reader, final_world = w'\<rparr>
                      else
                        do {
                          (res, reader', w'') \<leftarrow>
                            copyBuffer uc writer reader (replicate (unat (BlockSize opts)) 0) w';
                          (case res of
                             Panicked \<Rightarrow>
                               Some \<lparr>exit_code = 2,
                                     stderr_line = ''panic: runtime error: invalid memory address or nil pointer dereference'',
                                     final_reader = Some reader', final_world = w''\<rparr>
                           | Copied (Some err) \<Rightarrow>
                               Some \<lparr>exit_code = 1, stderr_line = ''error while copping:'',
                                     final_reader = Some reader', final_world = w''\<rparr>
                           | Copied None \<Rightarrow>
                               Some \<lparr>exit_code = 0, stderr_line = [],
                                     final_reader = Some reader', final_world = w''\<rparr>)
                        }))
          })"

section \<open>Auxiliary definitions of the properties\<close>

text \<open>
  The closed examples need a case table: this one leaves every rune above ASCII as it
  is. The examples use ASCII and invalid bytes only.
\<close>

definition ascii_tables :: case_tables where
  "ascii_tables = (\<lambda>r. r, \<lambda>r. r)"

text \<open>The two errors that wrap \<^verbatim>\<open>ErrInvalidConv\<close>.\<close>

fun is_conv_error :: "error \<Rightarrow> bool" where
  "is_conv_error (ErrInvalidConvUnknown v) = True"
| "is_conv_error ErrInvalidConvBoth = True"
| "is_conv_error e = False"

text \<open>
  A world with a source file holding \<^verbatim>\<open>abc\<close>, an existing file \<^verbatim>\<open>out.txt\<close> holding
  \<^verbatim>\<open>old\<close>, and an empty file; \<^verbatim>\<open>os.Create\<close> fails nowhere.
\<close>

definition example_world :: world where
  "example_world =
     \<lparr>files = [''in.txt'' \<mapsto> [0x61, 0x62, 0x63], ''out.txt'' \<mapsto> [0x6F, 0x6C, 0x64],
               ''empty.txt'' \<mapsto> []],
      create_errors = Map.empty, stdin = [], stdout = []\<rparr>"

text \<open>
  A source that delivers the given chunks, one after the other and without an error,
  and then ends.
\<close>

definition feed :: "byte list list \<Rightarrow> event list" where
  "feed chunks = map Chunk chunks"

text \<open>
  The source the options name delivers these chunks: standard input as the world has
  it, or an existing file, whose content is one chunk.
\<close>

definition source_chunks :: "Options \<Rightarrow> world \<Rightarrow> byte list list \<Rightarrow> bool" where
  "source_chunks opts w chunks =
     (if From opts = [] then stdin w = feed chunks
      else (case files w (From opts) of
              None \<Rightarrow> False
            | Some content \<Rightarrow> chunks = (if content = [] then [] else [content])))"

text \<open>
  A rune that UTF-8 text can hold and the decoding loops can tell from an error: a
  Unicode scalar value other than U+FFFD.
\<close>

definition plain_rune :: "rune \<Rightarrow> bool" where
  "plain_rune r = (r \<le> 0x10FFFF \<and> \<not> (0xD800 \<le> r \<and> r \<le> 0xDFFF) \<and> r \<noteq> 0xFFFD)"

text \<open>
  The decoding loop of \<^verbatim>\<open>CaseReader.Read\<close> as a function of the bytes from \<open>i\<close> on:
  what it appends to \<open>mapped\<close>, and the bytes it leaves in the buffer.
\<close>

function case_scan :: "case_tables \<Rightarrow> bool \<Rightarrow> byte list \<Rightarrow> byte list \<times> byte list" where
  "case_scan uc toUpper bs =
     (if bs = [] then ([], [])
      else
        (case DecodeRune bs of
           (r, runeSize) \<Rightarrow>
             if r = RuneError then ([], bs)
             else
               (case case_scan uc toUpper (drop runeSize bs) of
                  (out, rest) \<Rightarrow> (case_bytes uc toUpper r @ out, rest))))"
  by pat_completeness auto
termination
proof (relation "measure (\<lambda>(uc, toUpper, bs). length bs)", goal_cases)
  case 1
  show ?case by simp
next
  case (2 uc toUpper bs r runeSize)
  then have "0 < runeSize"
    using DecodeRune_size_pos [of bs] by (metis snd_conv)
  with 2 show ?case by simp
qed

declare case_scan.simps [simp del]

text \<open>
  The case transform of a whole input, as \<^verbatim>\<open>strings.ToUpper\<close> and \<^verbatim>\<open>strings.ToLower\<close>
  compute it on a string that is not all ASCII (\<^verbatim>\<open>strings.Map\<close>): every rune is
  mapped and written, and a byte that is no valid encoding counts as one U+FFFD.
\<close>

function whole_case_transform :: "case_tables \<Rightarrow> bool \<Rightarrow> byte list \<Rightarrow> byte list" where
  "whole_case_transform uc toUpper bs =
     (if bs = [] then []
      else
        (case DecodeRune bs of
           (r, runeSize) \<Rightarrow>
             case_bytes uc toUpper r @ whole_case_transform uc toUpper (drop runeSize bs)))"
  by pat_completeness auto
termination
proof (relation "measure (\<lambda>(uc, toUpper, bs). length bs)", goal_cases)
  case 1
  show ?case by simp
next
  case (2 uc toUpper bs r runeSize)
  then have "0 < runeSize"
    using DecodeRune_size_pos [of bs] by (metis snd_conv)
  with 2 show ?case by simp
qed

declare whole_case_transform.simps [simp del]

text \<open>A text, written in UTF-8.\<close>

definition enc_text :: "rune list \<Rightarrow> byte list" where
  "enc_text rs = concat (map EncodeRune rs)"

text \<open>
  The decoding loop of \<^verbatim>\<open>TrimReader.Read\<close> as a function of the bytes from \<open>i\<close> on and
  of the bytes between \<open>firstSpacePos\<close> and \<open>i\<close>, the pending whitespace: what it appends
  to \<open>trimmed\<close>, the bytes it leaves in the buffer, and the flag \<open>skippedSpaces\<close> at the
  end.
\<close>

function trim_scan :: "bool \<Rightarrow> byte list \<Rightarrow> byte list \<Rightarrow> byte list \<times> byte list \<times> bool" where
  "trim_scan skippedSpaces pending bs =
     (if bs = [] then ([], pending, skippedSpaces)
      else
        (case DecodeRune bs of
           (r, runeSize) \<Rightarrow>
             if r = RuneError then ([], pending @ bs, skippedSpaces)
             else if IsSpace r then
               trim_scan skippedSpaces (pending @ take runeSize bs) (drop runeSize bs)
             else
               (case trim_scan True [] (drop runeSize bs) of
                  (out, rest, skippedSpaces') \<Rightarrow>
                    ((if skippedSpaces then pending @ take runeSize bs else take runeSize bs) @ out,
                     rest, skippedSpaces'))))"
  by pat_completeness auto
termination
proof (relation "measure (\<lambda>(sk, pending, bs). length bs)", goal_cases)
  case 1
  show ?case by simp
next
  case (2 sk pending bs r runeSize)
  then have "0 < runeSize"
    using DecodeRune_size_pos [of bs] by (metis snd_conv)
  with 2 show ?case by simp
next
  case (3 sk pending bs r runeSize)
  then have "0 < runeSize"
    using DecodeRune_size_pos [of bs] by (metis snd_conv)
  with 3 show ?case by simp
qed

declare trim_scan.simps [simp del]

text \<open>Bytes that the decoding loop reads as whitespace characters only.\<close>

function all_ws :: "byte list \<Rightarrow> bool" where
  "all_ws bs =
     (if bs = [] then True
      else
        (case DecodeRune bs of
           (r, runeSize) \<Rightarrow> r \<noteq> RuneError \<and> IsSpace r \<and> all_ws (drop runeSize bs)))"
  by pat_completeness auto
termination
proof (relation "measure length", goal_cases)
  case 1
  show ?case by simp
next
  case (2 bs r runeSize)
  then have "0 < runeSize"
    using DecodeRune_size_pos [of bs] by (metis snd_conv)
  with 2 show ?case by simp
qed

declare all_ws.simps [simp del]

text \<open>
  A text without its trailing whitespace, its trailing whitespace, and the text without
  its leading and its trailing whitespace.
\<close>

definition strip_right :: "rune list \<Rightarrow> rune list" where
  "strip_right rs = rev (dropWhile IsSpace (rev rs))"

definition trailing_spaces :: "rune list \<Rightarrow> rune list" where
  "trailing_spaces rs = rev (takeWhile IsSpace (rev rs))"

definition strip_spaces :: "rune list \<Rightarrow> rune list" where
  "strip_spaces rs = dropWhile IsSpace (strip_right rs)"

text \<open>
  Bytes the decoding loops stop at: none at all, or bytes at which \<^verbatim>\<open>utf8.DecodeRune\<close>
  answers \<^verbatim>\<open>RuneError\<close> (an incomplete or an invalid sequence, or the encoding of
  U+FFFD itself).
\<close>

definition undecoded_tail :: "byte list \<Rightarrow> bool" where
  "undecoded_tail bs = (bs = [] \<or> fst (DecodeRune bs) = RuneError)"

text \<open>
  A well-formed result of a read into \<open>k\<close> bytes: the count is the number of bytes
  written, at most \<open>k\<close>, and no bytes come together with an error.
\<close>

definition result_ok :: "nat \<Rightarrow> read_result \<Rightarrow> bool" where
  "result_ok k res =
     (case res of (n, d, err) \<Rightarrow> n = length d \<and> length d \<le> k \<and> (err = None \<or> d = []))"

section \<open>Validation of the transform list\<close>

lemma conv_loop_unknown:
  "\<exists>v\<in>set vals. v \<notin> convMap \<Longrightarrow> \<exists>v. conv_loop vals l u = Inl (ErrInvalidConvUnknown v)"
  by (induction vals arbitrary: l u) auto

lemma conv_loop_known:
  "\<forall>v\<in>set vals. v \<in> convMap \<Longrightarrow>
   conv_loop vals l u = Inr (l \<or> ''lower_case'' \<in> set vals, u \<or> ''upper_case'' \<in> set vals)"
  by (induction vals arbitrary: l u) auto

lemma validatedConvs_rejects:
  assumes "convs \<noteq> []"
    and "(''lower_case'' \<in> set (Split_comma convs) \<and> ''upper_case'' \<in> set (Split_comma convs))
         \<or> (\<exists>v\<in>set (Split_comma convs). v \<notin> convMap)"
  shows "\<exists>e. validatedConvs convs = Inl e \<and> is_conv_error e"
proof (cases "\<exists>v\<in>set (Split_comma convs). v \<notin> convMap")
  case True
  then obtain v where "conv_loop (Split_comma convs) False False = Inl (ErrInvalidConvUnknown v)"
    using conv_loop_unknown by blast
  with assms(1) show ?thesis by (simp add: validatedConvs_def)
next
  case False
  then have "conv_loop (Split_comma convs) False False
      = Inr (''lower_case'' \<in> set (Split_comma convs), ''upper_case'' \<in> set (Split_comma convs))"
    using conv_loop_known [of "Split_comma convs" False False] by simp
  moreover from False assms(2)
  have "''lower_case'' \<in> set (Split_comma convs) \<and> ''upper_case'' \<in> set (Split_comma convs)"
    by blast
  ultimately show ?thesis using assms(1) by (simp add: validatedConvs_def)
qed

text \<open>
  Claim C10. The transform list is what \<^verbatim>\<open>strings.Split\<close> makes of a non-empty
  \<^verbatim>\<open>-conv\<close> string. When the list holds both \<^verbatim>\<open>lower_case\<close> and \<^verbatim>\<open>upper_case\<close>, or a
  name outside the three known ones, \<open>validatedConvs\<close> returns one of the two errors
  that wrap \<^verbatim>\<open>ErrInvalidConv\<close>, and \<open>main\<close> exits with status 1 in the flag phase: no
  reader has been built, so no byte of the source has been read, and the world is
  untouched.
\<close>

theorem C10_invalid_transforms_rejected_before_reading:
  assumes "convs \<noteq> []"
    and "(''lower_case'' \<in> set (Split_comma convs) \<and> ''upper_case'' \<in> set (Split_comma convs))
         \<or> (\<exists>v\<in>set (Split_comma convs). v \<notin> convMap)"
  shows "(\<exists>e. validatedConvs convs = Inl e \<and> is_conv_error e)
       \<and> main uc from_flag to_flag offset_flag limit_flag block_size_flag convs w
           = Some \<lparr>exit_code = 1, stderr_line = ''can not parse flags:'',
                   final_reader = None, final_world = w\<rparr>"
proof -
  obtain e where e: "validatedConvs convs = Inl e" "is_conv_error e"
    using validatedConvs_rejects [OF assms] by blast
  then show ?thesis by (auto simp add: main_def ParseFlags_def)
qed

theorem C10_invalid_transforms_rejected_witness:
  "''lower_case,upper_case'' \<noteq> []
   \<and> ''lower_case'' \<in> set (Split_comma ''lower_case,upper_case'')
   \<and> ''upper_case'' \<in> set (Split_comma ''lower_case,upper_case'')
   \<and> validatedConvs ''lower_case,upper_case'' = Inl ErrInvalidConvBoth
   \<and> validatedConvs ''trim_spaces,bogus'' = Inl (ErrInvalidConvUnknown ''bogus'')
   \<and> main ascii_tables ''in.txt'' [] 0 100 1024 ''lower_case,upper_case'' example_world
       = Some \<lparr>exit_code = 1, stderr_line = ''can not parse flags:'',
               final_reader = None, final_world = example_world\<rparr>"
  using C10_invalid_transforms_rejected_before_reading
          [of "''lower_case,upper_case''" ascii_tables "''in.txt''" "[]" 0 100 1024 example_world]
  by (simp add: validatedConvs_def convMap_def)

section \<open>The sink that already exists\<close>

text \<open>
  Claim C2 says that \<^verbatim>\<open>createWriter\<close> fails with a non-nil error when the sink exists,
  and that the process then exits non-zero. The code returns \<^verbatim>\<open>nil, err\<close> with the
  error of \<^verbatim>\<open>os.Stat\<close>, which is nil for a file that exists: the writer and the error
  are both nil. \<open>main\<close> goes on to copy into the nil writer. With the source \<^verbatim>\<open>abc\<close>
  the first write panics (status 2, after the source has been read); with an empty
  source nothing is written and the process exits with status 0. The existing file
  is not overwritten in either run.
\<close>

theorem C2_existing_sink_returns_nil_error:
  "createWriter ''out.txt'' example_world = ((NilWriter, None), example_world)
   \<and> main uc ''in.txt'' ''out.txt'' 0 100 1024 [] example_world
       = Some \<lparr>exit_code = 2,
               stderr_line = ''panic: runtime error: invalid memory address or nil pointer dereference'',
               final_reader = Some (LimitedReader (Src 3 []) 97), final_world = example_world\<rparr>
   \<and> main uc ''empty.txt'' ''out.txt'' 0 100 1024 [] example_world
       = Some \<lparr>exit_code = 0, stderr_line = [],
               final_reader = Some (LimitedReader (Src 0 []) 100), final_world = example_world\<rparr>"
  by (simp add: createWriter_def os_Stat_def os_IsNotExist_def example_world_def main_def
      ParseFlags_def validatedConvs_def CreateReader_def os_Open_def io_CopyN_discard_def
      discard_ReadFrom.simps Read.simps copyBuffer.simps maxAlloc_def)

section \<open>Skipping the offset\<close>

lemma sint_small: "unat (x :: 64 word) < 2 ^ 63 \<Longrightarrow> sint x = uint x"
proof -
  assume a: "unat x < 2 ^ 63"
  then have "int (unat x) < int (2 ^ 63)" by (simp only: of_nat_less_iff)
  then have "uint x < 2 ^ 63" by (simp only: uint_nat [symmetric] of_nat_power of_nat_numeral)
  moreover have "0 \<le> uint x" by simp
  moreover have "- (2 ^ 63) \<le> (0::int)" by simp
  ultimately have "signed_take_bit 63 (uint x) = uint x"
    by (intro signed_take_bit_int_eq_self) linarith+
  then show ?thesis by (simp add: sint_uint)
qed
lemma lt_uint: "n < unat (x :: 64 word) \<Longrightarrow> int n < uint x"
proof -
  assume "n < unat x"
  then have "int n < int (unat x)" by (simp only: of_nat_less_iff)
  then show ?thesis by (simp only: uint_nat [symmetric])
qed

lemma feed_simps:
  "feed [] = []" "feed (c # cs) = Chunk c # feed cs"
  by (simp_all add: feed_def)

lemma Read_Src: "Read uc k (Src pos evs) = (case src_read k pos evs of (res, pos', evs') \<Rightarrow> Some (res, Src pos' evs'))"
  by (subst Read.simps) simp

lemma Read_LimitedReader:
  "Read uc k (LimitedReader R N) =
     (if N \<le> 0 then Some ((0, [], Some EOF), LimitedReader R N)
      else do {
        (res, R') \<leftarrow> Read uc (if int k > N then nat N else k) R;
        Some (res, LimitedReader R' (N - int (fst res)))
      })"
  by (subst Read.simps) simp

lemma Read_Limited_Src:
  "0 < N \<Longrightarrow> Read uc k (LimitedReader (Src pos evs) N) =
     (case src_read (if int k > N then nat N else k) pos evs of
        (res, pos', evs') \<Rightarrow> Some (res, LimitedReader (Src pos' evs') (N - int (fst res))))"
  by (simp add: Read_LimitedReader Read_Src split: prod.splits)

lemma discard_short:
  "int (length (concat chunks)) < N \<Longrightarrow>
   discard_ReadFrom uc (LimitedReader (Src pos (feed chunks)) N) acc
     = Some (acc + int (length (concat chunks)), None,
             LimitedReader (Src (pos + length (concat chunks)) []) (N - int (length (concat chunks))))"
proof (induction chunks arbitrary: pos N acc
        rule: measure_induct_rule [where f = "\<lambda>cs. length (concat cs) + length cs"])
  case (less chunks)
  have N: "0 < N" using less.prems by simp
  show ?case
  proof (cases chunks)
    case Nil
    have "(if 8192 > N then nat N else 8192) \<noteq> 0" using N by simp
    then have "src_read (if 8192 > N then nat N else 8192) pos []
        = ((0, [], Some EOF), pos, [])"
      by simp
    then show ?thesis unfolding Nil
      by (subst discard_ReadFrom.simps) (simp add: Read_Limited_Src N feed_simps)
  next
    case (Cons c cs)
    define k where "k = (if 8192 > N then nat N else 8192)"
    have k: "0 < k" using N by (simp add: k_def)
    show ?thesis
    proof (cases "length c \<le> k")
      case True
      have "int (length (concat cs)) < N - int (length c)"
        using less.prems Cons by simp
      from less.IH [OF _ this, of "pos + length c" "acc + int (length c)"] Cons
      have ih: "discard_ReadFrom uc (LimitedReader (Src (pos + length c) (feed cs)) (N - int (length c)))
          (acc + int (length c))
        = Some (acc + int (length (concat chunks)), None,
             LimitedReader (Src (pos + length (concat chunks)) []) (N - int (length (concat chunks))))"
        by (simp add: algebra_simps)
      have "src_read k pos (feed chunks) = ((length c, c, None), pos + length c, feed cs)"
        using True Cons k by (simp add: feed_simps)
      then show ?thesis
        by (subst discard_ReadFrom.simps) (simp add: Read_Limited_Src N k_def [symmetric] ih)
    next
      case False
      have "int (length (concat (drop k c # cs))) < N - int k"
        using less.prems Cons False by simp
      from less.IH [OF _ this, of "pos + k" "acc + int k"] Cons False k
      have ih: "discard_ReadFrom uc (LimitedReader (Src (pos + k) (feed (drop k c # cs))) (N - int k))
          (acc + int k)
        = Some (acc + int (length (concat chunks)), None,
             LimitedReader (Src (pos + length (concat chunks)) []) (N - int (length (concat chunks))))"
        by (simp add: algebra_simps)
      have "src_read k pos (feed chunks) = ((k, take k c, None), pos + k, feed (drop k c # cs))"
        using False Cons k by (simp add: feed_simps)
      then show ?thesis
        by (subst discard_ReadFrom.simps) (simp add: Read_Limited_Src N k_def [symmetric] ih)
    qed
  qed
qed

text \<open>
  Claim C3 says that construction fails whenever the skip count is greater than or
  equal to the number of bytes of the source. With the source \<^verbatim>\<open>abc\<close> and a skip of
  exactly 3, \<^verbatim>\<open>io.CopyN\<close> copies 3 bytes and returns no error: \<open>CreateReader\<close>
  succeeds, and the reader it returns is at the end of the source.
\<close>

theorem C3_skip_equal_to_length_counterexample:
  "CreateReader ascii_tables
     \<lparr>From = ''in.txt'', To = [], Offset = 3, Limit = 100, BlockSize = 1024, Conv = []\<rparr>
     example_world
   = Some (Inr (LimitedReader (Src 3 []) 100), Some (Src 3 []))"
  by (simp add: example_world_def CreateReader_def os_Open_def io_CopyN_discard_def
      discard_ReadFrom.simps Read.simps)

text \<open>
  Claim C3, amended. When the source holds fewer bytes than the skip count, and the
  skip count is below \<open>2^63\<close> (so that \<^verbatim>\<open>int64(opts.Offset)\<close> is the count itself),
  \<open>CreateReader\<close> fails with the \<^verbatim>\<open>io.EOF\<close> that \<^verbatim>\<open>io.CopyN\<close> returns for a short
  copy, after the whole source has been read. This holds for a file and for standard
  input, however its reads are chunked.
\<close>

theorem C3_skip_beyond_source_fails:
  assumes "source_chunks opts w chunks"
    and "length (concat chunks) < unat (Offset opts)"
    and "unat (Offset opts) < 2 ^ 63"
  shows "CreateReader uc opts w = Some (Inl EOF, Some (Src (length (concat chunks)) []))"
proof -
  have s: "sint (Offset opts) = uint (Offset opts)"
    using assms(3) by (rule sint_small)
  have o: "(if From opts = [] then Inr (Src 0 (stdin w)) else os_Open w (From opts))
             = Inr (Src 0 (feed chunks))"
    using assms(1)
    by (auto simp add: source_chunks_def os_Open_def feed_simps split: option.splits if_splits)
  have lt: "int (length (concat chunks)) < uint (Offset opts)"
    using assms(2) by (rule lt_uint)
  show ?thesis
    unfolding CreateReader_def o io_CopyN_discard_def s
    using lt by (simp add: discard_short [OF lt])
qed

theorem C3_skip_beyond_source_witness:
  "source_chunks \<lparr>From = ''in.txt'', To = [], Offset = 4, Limit = 100, BlockSize = 1024, Conv = []\<rparr>
     example_world [[0x61, 0x62, 0x63]]
   \<and> length (concat [[0x61, 0x62, 0x63 :: byte]]) < unat (4 :: 64 word)
   \<and> unat (4 :: 64 word) < 2 ^ 63
   \<and> CreateReader ascii_tables
        \<lparr>From = ''in.txt'', To = [], Offset = 4, Limit = 100, BlockSize = 1024, Conv = []\<rparr>
        example_world
      = Some (Inl EOF, Some (Src 3 []))"
  using C3_skip_beyond_source_fails
    [of "\<lparr>From = ''in.txt'', To = [], Offset = 4, Limit = 100, BlockSize = 1024, Conv = []\<rparr>"
        example_world "[[0x61, 0x62, 0x63]]" ascii_tables]
  by (simp add: source_chunks_def example_world_def)

section \<open>Decoding what was encoded\<close>

lemma unat_byte: "n < 256 \<Longrightarrow> unat (of_nat n :: byte) = n"
  by (simp add: unat_of_nat)

lemma mod_shift: "q < b \<Longrightarrow> (k * b + q) mod b = (q::nat)"
  by simp

lemma split3: "(r::nat) = (r div (b * b)) * (b * b) + (r div b mod b) * b + r mod b"
proof -
  have "r div (b * b) = r div b div b" by (simp add: div_mult2_eq)
  then have "(r div (b * b)) * b + r div b mod b = r div b" by simp
  then have "r div b * b = (r div (b * b)) * (b * b) + (r div b mod b) * b"
    by (metis add_mult_distrib mult.assoc)
  then show ?thesis by (metis div_mult_mod_eq)
qed

lemma split4:
  "(r::nat) = (r div (b * b * b)) * (b * b * b) + (r div (b * b) mod b) * (b * b)
              + (r div b mod b) * b + r mod b"
proof -
  have "r div (b * b * b) = r div (b * b) div b" by (simp add: div_mult2_eq)
  then have "(r div (b * b * b)) * b + r div (b * b) mod b = r div (b * b)" by simp
  then have "r div (b * b) * (b * b)
      = (r div (b * b * b)) * (b * b * b) + (r div (b * b) mod b) * (b * b)"
    by (metis add_mult_distrib mult.assoc)
  with split3 [of r b] show ?thesis by simp
qed

lemma split3_64: "(r::nat) = (r div 4096) * 4096 + (r div 64 mod 64) * 64 + r mod 64"
  using split3 [of r 64] by simp

lemma split4_64:
  "(r::nat) = (r div 262144) * 262144 + (r div 4096 mod 64) * 4096 + (r div 64 mod 64) * 64 + r mod 64"
  using split4 [of r 64] by simp

lemma decode_encode1:
  assumes "r \<le> 0x7F"
  shows "DecodeRune (EncodeRune r @ ys) = (r, 1)"
proof -
  have "unat (of_nat r :: byte) = r" using assms by (intro unat_byte) simp
  with assms show ?thesis by (simp add: EncodeRune_def Let_def)
qed

lemma decode_encode2:
  assumes "0x7F < r" and "r \<le> 0x7FF"
  shows "DecodeRune (EncodeRune r @ ys) = (r, 2)"
proof -
  define q where "q = r div 64"
  define m where "m = r mod 64"
  define p0 :: byte where "p0 = of_nat (0xC0 + q)"
  define p1 :: byte where "p1 = of_nat (0x80 + m)"
  have r: "q * 64 + m = r" by (simp add: q_def m_def)
  have q: "2 \<le> q" "q < 32" using assms by (simp_all add: q_def)
  have m: "m < 64" by (simp add: m_def)
  have b0: "unat p0 = 0xC0 + q" unfolding p0_def using q by (intro unat_byte) simp
  have b1: "unat p1 = 0x80 + m" unfolding p1_def using m by (intro unat_byte) simp
  have enc: "EncodeRune r = [p0, p1]"
    using assms by (simp add: EncodeRune_def q_def m_def p0_def p1_def)
  have acc: "accept (0xC0 + q) (0x80 + m)"
    using q m by (simp add: accept_def)
  have v0: "(0xC0 + q) mod 32 = q" using mod_shift [of q 32 6] q by simp
  have v1: "(0x80 + m) mod 64 = m" using mod_shift [of m 64 2] m by simp
  have "DecodeRune ([p0, p1] @ ys) = (q * 64 + m, 2)"
    using q acc by (simp add: Let_def b0 b1 decode2_def v0 v1)
  then show ?thesis by (simp only: enc r)
qed

lemma decode_encode3:
  assumes "0x7FF < r" and "r \<le> 0xFFFF" and "plain_rune r"
  shows "DecodeRune (EncodeRune r @ ys) = (r, 3)"
proof -
  define q where "q = r div 4096"
  define m where "m = r div 64 mod 64"
  define l where "l = r mod 64"
  define p0 :: byte where "p0 = of_nat (0xE0 + q)"
  define p1 :: byte where "p1 = of_nat (0x80 + m)"
  define p2 :: byte where "p2 = of_nat (0x80 + l)"
  have r: "q * 4096 + m * 64 + l = r" unfolding q_def m_def l_def by (rule split3_64 [symmetric])
  have q: "q < 16" using assms by (simp add: q_def)
  have m: "m < 64" by (simp add: m_def)
  have l: "l < 64" by (simp add: l_def)
  have b0: "unat p0 = 0xE0 + q" unfolding p0_def using q by (intro unat_byte) simp
  have b1: "unat p1 = 0x80 + m" unfolding p1_def using m by (intro unat_byte) simp
  have b2: "unat p2 = 0x80 + l" unfolding p2_def using l by (intro unat_byte) simp
  have ns: "r < 0xD800 \<or> 0xDFFF < r" using assms(3) by (auto simp add: plain_rune_def)
  have enc: "EncodeRune r = [p0, p1, p2]"
    using assms(1,2) ns by (auto simp add: EncodeRune_def q_def m_def l_def p0_def p1_def p2_def)
  have q0: "q = 0 \<Longrightarrow> 32 \<le> m" using assms(1) r l by linarith
  have q13: "q = 13 \<Longrightarrow> m < 32" using ns r l m by linarith
  have acc: "accept (0xE0 + q) (0x80 + m)"
    using q m q0 q13 by (auto simp add: accept_def)
  have cb: "cont_byte (0x80 + l)" using l by (simp add: cont_byte_def)
  have v0: "(0xE0 + q) mod 16 = q" using mod_shift [of q 16 14] q by simp
  have v1: "(0x80 + m) mod 64 = m" using mod_shift [of m 64 2] m by simp
  have v2: "(0x80 + l) mod 64 = l" using mod_shift [of l 64 2] l by simp
  have "DecodeRune ([p0, p1, p2] @ ys) = (q * 4096 + m * 64 + l, 3)"
    using q acc cb by (simp add: Let_def b0 b1 b2 decode3_def v0 v1 v2)
  then show ?thesis by (simp only: enc r)
qed

lemma decode_encode4:
  assumes "0xFFFF < r" and "r \<le> 0x10FFFF"
  shows "DecodeRune (EncodeRune r @ ys) = (r, 4)"
proof -
  define q where "q = r div 262144"
  define m where "m = r div 4096 mod 64"
  define l where "l = r div 64 mod 64"
  define j where "j = r mod 64"
  define p0 :: byte where "p0 = of_nat (0xF0 + q)"
  define p1 :: byte where "p1 = of_nat (0x80 + m)"
  define p2 :: byte where "p2 = of_nat (0x80 + l)"
  define p3 :: byte where "p3 = of_nat (0x80 + j)"
  have r: "q * 262144 + m * 4096 + l * 64 + j = r"
    unfolding q_def m_def l_def j_def by (rule split4_64 [symmetric])
  have q: "q \<le> 4" using assms by (simp add: q_def)
  have m: "m < 64" by (simp add: m_def)
  have l: "l < 64" by (simp add: l_def)
  have j: "j < 64" by (simp add: j_def)
  have b0: "unat p0 = 0xF0 + q" unfolding p0_def using q by (intro unat_byte) simp
  have b1: "unat p1 = 0x80 + m" unfolding p1_def using m by (intro unat_byte) simp
  have b2: "unat p2 = 0x80 + l" unfolding p2_def using l by (intro unat_byte) simp
  have b3: "unat p3 = 0x80 + j" unfolding p3_def using j by (intro unat_byte) simp
  have enc: "EncodeRune r = [p0, p1, p2, p3]"
    using assms by (simp add: EncodeRune_def q_def m_def l_def j_def p0_def p1_def p2_def p3_def)
  have q0: "q = 0 \<Longrightarrow> 16 \<le> m" using assms(1) r l j by linarith
  have q4: "q = 4 \<Longrightarrow> m < 16" using assms(2) r l j by linarith
  have acc: "accept (0xF0 + q) (0x80 + m)"
    using q m q0 q4 by (auto simp add: accept_def)
  have cb: "cont_byte (0x80 + l)" "cont_byte (0x80 + j)"
    using l j by (simp_all add: cont_byte_def)
  have v0: "(0xF0 + q) mod 8 = q" using mod_shift [of q 8 30] q by simp
  have v1: "(0x80 + m) mod 64 = m" using mod_shift [of m 64 2] m by simp
  have v2: "(0x80 + l) mod 64 = l" using mod_shift [of l 64 2] l by simp
  have v3: "(0x80 + j) mod 64 = j" using mod_shift [of j 64 2] j by simp
  have "DecodeRune ([p0, p1, p2, p3] @ ys) = (q * 262144 + m * 4096 + l * 64 + j, 4)"
    using q acc cb by (simp add: Let_def b0 b1 b2 b3 decode4_def v0 v1 v2 v3)
  then show ?thesis by (simp only: enc r)
qed

lemma EncodeRune_length:
  "length (EncodeRune r) =
     (if r \<le> 0x7F then 1 else if r \<le> 0x7FF then 2
      else if 0x10FFFF < r \<or> (0xD800 \<le> r \<and> r \<le> 0xDFFF) then 3
      else if r \<le> 0xFFFF then 3 else 4)"
  by (simp add: EncodeRune_def)

lemma DecodeRune_EncodeRune:
  assumes "plain_rune r"
  shows "DecodeRune (EncodeRune r @ ys) = (r, length (EncodeRune r))"
proof -
  have b: "r \<le> 0x10FFFF" "\<not> (0xD800 \<le> r \<and> r \<le> 0xDFFF)"
    using assms by (simp_all add: plain_rune_def)
  consider "r \<le> 0x7F" | "0x7F < r" "r \<le> 0x7FF" | "0x7FF < r" "r \<le> 0xFFFF" | "0xFFFF < r"
    by linarith
  then show ?thesis
  proof cases
    case 1 then show ?thesis by (simp add: decode_encode1 EncodeRune_length)
  next
    case 2 then show ?thesis by (simp add: decode_encode2 EncodeRune_length)
  next
    case 3 with assms b show ?thesis by (simp add: decode_encode3 EncodeRune_length)
  next
    case 4 with b show ?thesis by (simp add: decode_encode4 EncodeRune_length)
  qed
qed

section \<open>The case-folding filter, drained\<close>

lemma case_scan_Nil [simp]: "case_scan uc up [] = ([], [])"
  by (simp add: case_scan.simps)

lemma case_scan_stop:
  "fst (DecodeRune bs) = RuneError \<Longrightarrow> case_scan uc up bs = ([], bs)"
  by (subst case_scan.simps) (simp add: case_prod_beta)

lemma case_scan_go:
  "fst (DecodeRune bs) \<noteq> RuneError \<Longrightarrow>
   case_scan uc up bs =
     (case_bytes uc up (fst (DecodeRune bs)) @ fst (case_scan uc up (drop (snd (DecodeRune bs)) bs)),
      snd (case_scan uc up (drop (snd (DecodeRune bs)) bs)))"
  by (subst case_scan.simps) (auto simp add: case_prod_beta)

lemma DecodeRune_Nil_fst: "fst (DecodeRune []) = RuneError"
  by simp

lemma case_loop_scan:
  "i \<le> length buffer \<Longrightarrow>
   case_loop uc up buffer i mapped =
     (length buffer - length (snd (case_scan uc up (drop i buffer))),
      mapped @ fst (case_scan uc up (drop i buffer)))"
proof (induction uc up buffer i mapped rule: case_loop.induct)
  case (1 uc up buffer i mapped)
  show ?case
  proof (cases "i < length buffer")
    case False
    with 1(2) show ?thesis by (subst case_loop.simps) simp
  next
    case True
    obtain r sz where d: "DecodeRune (drop i buffer) = (r, sz)" by (cases "DecodeRune (drop i buffer)")
    show ?thesis
    proof (cases "r = RuneError")
      case True
      with d have "case_scan uc up (drop i buffer) = ([], drop i buffer)"
        by (intro case_scan_stop) simp
      with True d \<open>i < length buffer\<close> show ?thesis
        by (subst case_loop.simps) simp
    next
      case False
      have le: "i + sz \<le> length buffer"
        using DecodeRune_size_le [of "drop i buffer"] d True by simp
      have ih: "case_loop uc up buffer (i + sz) (mapped @ case_bytes uc up r) =
         (length buffer - length (snd (case_scan uc up (drop (i + sz) buffer))),
          (mapped @ case_bytes uc up r) @ fst (case_scan uc up (drop (i + sz) buffer)))"
        using 1(1) [OF True d [symmetric] False le] .
      have sc: "case_scan uc up (drop i buffer) =
         (case_bytes uc up r @ fst (case_scan uc up (drop (i + sz) buffer)),
          snd (case_scan uc up (drop (i + sz) buffer)))"
        using case_scan_go [of "drop i buffer" uc up] d False by (simp add: add.commute)
      show ?thesis
        using True d False by (subst case_loop.simps) (simp add: ih sc)
    qed
  qed
qed

lemma case_scan_length: "length (snd (case_scan uc up bs)) \<le> length bs"
proof (induction uc up bs rule: case_scan.induct)
  case (1 uc up bs)
  show ?case
  proof (cases "bs = [] \<or> fst (DecodeRune bs) = RuneError")
    case True
    then show ?thesis by (auto simp add: case_scan_stop)
  next
    case False
    then have "length (snd (case_scan uc up (drop (snd (DecodeRune bs)) bs)))
        \<le> length (drop (snd (DecodeRune bs)) bs)"
      using 1 [OF _ surjective_pairing [symmetric]] by simp
    with False show ?thesis by (simp add: case_scan_go)
  qed
qed

lemma case_scan_suffix:
  "drop (length bs - length (snd (case_scan uc up bs))) bs = snd (case_scan uc up bs)"
proof (induction uc up bs rule: case_scan.induct)
  case (1 uc up bs)
  show ?case
  proof (cases "bs = [] \<or> fst (DecodeRune bs) = RuneError")
    case True
    then show ?thesis by (auto simp add: case_scan_stop)
  next
    case False
    define sz where "sz = snd (DecodeRune bs)"
    define rest where "rest = snd (case_scan uc up (drop sz bs))"
    have ih: "drop (length (drop sz bs) - length rest) (drop sz bs) = rest"
      using False 1 [OF _ surjective_pairing [symmetric]]
      by (simp add: sz_def rest_def)
    have le: "length rest \<le> length bs - sz"
      using case_scan_length [of uc up "drop sz bs"] by (simp add: rest_def)
    have sz: "sz \<le> length bs" using DecodeRune_size_le [of bs] by (simp add: sz_def)
    have "length bs - length rest = sz + (length bs - sz - length rest)"
      using le sz by simp
    then have "drop (length bs - length rest) bs = drop (length bs - sz - length rest) (drop sz bs)"
      by (simp add: add.commute)
    with ih have "drop (length bs - length rest) bs = rest" by simp
    with False show ?thesis by (simp add: case_scan_go sz_def rest_def)
  qed
qed
lemma decode2_append: "fst (decode2 b0 ps) \<noteq> RuneError \<Longrightarrow> decode2 b0 (ps @ ys) = decode2 b0 ps"
  by (cases ps) (simp_all add: decode2_def)

lemma decode3_append: "fst (decode3 b0 ps) \<noteq> RuneError \<Longrightarrow> decode3 b0 (ps @ ys) = decode3 b0 ps"
  by (cases ps rule: remdups_adj.cases) (simp_all add: decode3_def)

lemma decode4_append:
  assumes "fst (decode4 b0 ps) \<noteq> RuneError"
  shows "decode4 b0 (ps @ ys) = decode4 b0 ps"
proof (cases ps)
  case Nil with assms show ?thesis by (simp add: decode4_def)
next
  case (Cons p1 qs)
  with assms show ?thesis
    by (cases qs rule: remdups_adj.cases) (simp_all add: decode4_def)
qed

lemma DecodeRune_append:
  "fst (DecodeRune xs) \<noteq> RuneError \<Longrightarrow> DecodeRune (xs @ ys) = DecodeRune xs"
  by (cases xs) (auto simp add: Let_def decode2_append decode3_append decode4_append split: if_splits)

lemma case_scan_append:
  "case_scan uc up (a @ b) =
     (fst (case_scan uc up a) @ fst (case_scan uc up (snd (case_scan uc up a) @ b)),
      snd (case_scan uc up (snd (case_scan uc up a) @ b)))"
proof (induction uc up a rule: case_scan.induct)
  case (1 uc up a)
  show ?case
  proof (cases "a = [] \<or> fst (DecodeRune a) = RuneError")
    case True
    then show ?thesis by (auto simp add: case_scan_stop)
  next
    case False
    define sz where "sz = snd (DecodeRune a)"
    have d: "DecodeRune (a @ b) = DecodeRune a"
      using False by (simp add: DecodeRune_append)
    have sz: "sz \<le> length a" using DecodeRune_size_le [of a] by (simp add: sz_def)
    have ih: "case_scan uc up (drop sz a @ b) =
       (fst (case_scan uc up (drop sz a)) @ fst (case_scan uc up (snd (case_scan uc up (drop sz a)) @ b)),
        snd (case_scan uc up (snd (case_scan uc up (drop sz a)) @ b)))"
      using False 1 [OF _ surjective_pairing [symmetric]] by (simp add: sz_def)
    have l: "case_scan uc up (a @ b) =
       (case_bytes uc up (fst (DecodeRune a)) @ fst (case_scan uc up (drop sz a @ b)),
        snd (case_scan uc up (drop sz a @ b)))"
      using case_scan_go [of "a @ b" uc up] False d sz by (simp add: sz_def)
    have r: "case_scan uc up a =
       (case_bytes uc up (fst (DecodeRune a)) @ fst (case_scan uc up (drop sz a)),
        snd (case_scan uc up (drop sz a)))"
      using case_scan_go [of a uc up] False by (simp add: sz_def)
    show ?thesis by (simp add: l r ih)
  qed
qed

lemma case_scan_rest_stuck:
  "case_scan uc up (snd (case_scan uc up bs)) = ([], snd (case_scan uc up bs))"
proof (induction uc up bs rule: case_scan.induct)
  case (1 uc up bs)
  show ?case
  proof (cases "bs = [] \<or> fst (DecodeRune bs) = RuneError")
    case True
    then show ?thesis by (auto simp add: case_scan_stop)
  next
    case False
    then show ?thesis
      using 1 [OF _ surjective_pairing [symmetric]] by (simp add: case_scan_go)
  qed
qed

lemma filled_ok: "length d \<le> k \<Longrightarrow> filled (replicate k 0) (length d, d, e) = d"
  by (simp add: filled_def)

lemma Read_CaseReader_pending:
  "mapped \<noteq> [] \<Longrightarrow>
   Read uc k (CaseReader rd up mapped buffer) =
     Some ((min k (length mapped), take k mapped, None), CaseReader rd up (drop k mapped) buffer)"
  by (subst Read.simps) (simp add: copyFromChecked_def Let_def min_def)

lemma Read_CaseReader_fill:
  "Read uc k (CaseReader rd up [] buffer) =
     do {
       (res, rd') \<leftarrow> Read uc k rd;
       (case res of
          (n, d, err) \<Rightarrow>
            if err \<noteq> None then Some ((n, [], err), CaseReader rd' up [] buffer)
            else Read uc k
                   (CaseReader rd' up
                      (fst (case_scan uc up (buffer @ filled (replicate k 0) res)))
                      (snd (case_scan uc up (buffer @ filled (replicate k 0) res)))))
     }"
proof -
  have loop: "\<And>b. case_loop uc up b 0 [] =
      (length b - length (snd (case_scan uc up b)), fst (case_scan uc up b))"
    using case_loop_scan [of 0 _ uc up "[]"] by simp
  show ?thesis
    apply (subst Read.simps)
    apply simp
    apply (rule Option.bind_cong [OF refl])
    apply (simp add: loop Let_def case_scan_suffix split: prod.splits cong del: if_weak_cong)
    done
qed

lemma src_read_feed:
  assumes "0 < k"
  obtains d0 chunks1 where
    "src_read k pos (feed (c # cs)) = ((length d0, d0, None), pos + length d0, feed chunks1)"
    "concat (c # cs) = d0 @ concat chunks1"
    "length (concat chunks1) + length chunks1 < length (concat (c # cs)) + length (c # cs)"
    "length d0 \<le> k"
proof (cases "length c \<le> k")
  case True
  show ?thesis
    by (rule that [of c cs]) (use True assms in \<open>simp_all add: feed_simps\<close>)
next
  case False
  have a: "concat (c # cs) = take k c @ concat (drop k c # cs)" by simp
  have b: "length (concat (drop k c # cs)) + length (drop k c # cs)
      < length (concat (c # cs)) + length (c # cs)"
    using False assms by simp
  have c: "src_read k pos (feed (c # cs))
      = ((length (take k c), take k c, None), pos + length (take k c), feed (drop k c # cs))"
    using False by (simp add: feed_simps min_def)
  have d: "length (take k c) \<le> k" by simp
  show ?thesis by (rule that [OF c a b d])
qed

lemma Read_CaseReader_fed:
  assumes k: "0 < k" and stuck: "case_scan uc up b = ([], b)"
  shows "\<exists>d e m' b' pos' chunks'.
      Read uc k (CaseReader (Src pos (feed chunks)) up [] b)
        = Some ((length d, d, e), CaseReader (Src pos' (feed chunks')) up m' b')
    \<and> length d \<le> k \<and> case_scan uc up b' = ([], b')
    \<and> d @ m' @ fst (case_scan uc up (b' @ concat chunks')) = fst (case_scan uc up (b @ concat chunks))
    \<and> snd (case_scan uc up (b' @ concat chunks')) = snd (case_scan uc up (b @ concat chunks))
    \<and> pos' + length (concat chunks') = pos + length (concat chunks)
    \<and> (if e = None
        then d \<noteq> [] \<and> length (concat chunks') + length chunks' < length (concat chunks) + length chunks
        else e = Some EOF \<and> d = [] \<and> m' = [] \<and> chunks' = [])"
  using stuck
proof (induction chunks arbitrary: pos b
        rule: measure_induct_rule [where f = "\<lambda>cs. length (concat cs) + length cs"])
  case (less chunks)
  note stuck = less.prems
  show ?case
  proof (cases chunks)
    case Nil
    have "Read uc k (CaseReader (Src pos (feed [])) up [] b)
        = Some ((length ([]::byte list), [], Some EOF), CaseReader (Src pos (feed [])) up [] b)"
      using k by (subst Read_CaseReader_fill) (simp add: Read_Src feed_simps)
    then show ?thesis
      unfolding Nil using stuck
      by (intro exI [of _ "[]"] exI [of _ "Some EOF"] exI [of _ b] exI [of _ pos]) simp
  next
    case (Cons c cs)
    obtain d0 chunks1 where
      sr: "src_read k pos (feed (c # cs)) = ((length d0, d0, None), pos + length d0, feed chunks1)"
      and cc: "concat (c # cs) = d0 @ concat chunks1"
      and lt: "length (concat chunks1) + length chunks1 < length (concat (c # cs)) + length (c # cs)"
      and dk: "length d0 \<le> k"
      using src_read_feed [OF k] by blast
    define o1 where "o1 = fst (case_scan uc up (b @ d0))"
    define l1 where "l1 = snd (case_scan uc up (b @ d0))"
    have l1_stuck: "case_scan uc up l1 = ([], l1)"
      unfolding l1_def by (rule case_scan_rest_stuck)
    have step: "Read uc k (CaseReader (Src pos (feed chunks)) up [] b)
        = Read uc k (CaseReader (Src (pos + length d0) (feed chunks1)) up o1 l1)"
      unfolding Cons
      by (subst Read_CaseReader_fill) (simp add: Read_Src sr filled_ok dk o1_def l1_def)
    have whole: "case_scan uc up (b @ concat chunks) =
        (o1 @ fst (case_scan uc up (l1 @ concat chunks1)), snd (case_scan uc up (l1 @ concat chunks1)))"
      using case_scan_append [of uc up "b @ d0" "concat chunks1"] cc Cons
      by (simp add: o1_def l1_def)
    have pos: "pos + length d0 + length (concat chunks1) = pos + length (concat chunks)"
      using cc Cons by simp
    show ?thesis
    proof (cases "o1 = []")
      case True
      from less.IH [of chunks1 l1 "pos + length d0"] lt Cons l1_stuck
      obtain d e m' b' pos' chunks' where
        r: "Read uc k (CaseReader (Src (pos + length d0) (feed chunks1)) up [] l1)
              = Some ((length d, d, e), CaseReader (Src pos' (feed chunks')) up m' b')"
        and p: "length d \<le> k" "case_scan uc up b' = ([], b')"
          "d @ m' @ fst (case_scan uc up (b' @ concat chunks')) = fst (case_scan uc up (l1 @ concat chunks1))"
          "snd (case_scan uc up (b' @ concat chunks')) = snd (case_scan uc up (l1 @ concat chunks1))"
          "pos' + length (concat chunks') = pos + length d0 + length (concat chunks1)"
          "if e = None
           then d \<noteq> [] \<and> length (concat chunks') + length chunks' < length (concat chunks1) + length chunks1
           else e = Some EOF \<and> d = [] \<and> m' = [] \<and> chunks' = []"
        by blast
      have "if e = None
           then d \<noteq> [] \<and> length (concat chunks') + length chunks' < length (concat chunks) + length chunks
           else e = Some EOF \<and> d = [] \<and> m' = [] \<and> chunks' = []"
        using p(6) lt Cons by (auto split: if_splits)
      with r p(1-5) True show ?thesis
        unfolding step whole pos [symmetric]
        by (intro exI [of _ d] exI [of _ e] exI [of _ m'] exI [of _ b'] exI [of _ pos']
              exI [of _ chunks']) simp
    next
      case False
      have r: "Read uc k (CaseReader (Src (pos + length d0) (feed chunks1)) up o1 l1)
          = Some ((length (take k o1), take k o1, None),
                  CaseReader (Src (pos + length d0) (feed chunks1)) up (drop k o1) l1)"
        using False by (simp add: Read_CaseReader_pending min.commute)
      have ne: "take k o1 \<noteq> []" using False k by (cases o1) simp_all
      show ?thesis
        unfolding step whole
        using r l1_stuck ne lt Cons pos
        by (intro exI [of _ "take k o1"] exI [of _ None] exI [of _ "drop k o1"] exI [of _ l1]
              exI [of _ "pos + length d0"] exI [of _ chunks1]) simp
    qed
  qed
qed

lemma world_stdout_same [simp]: "w\<lparr>stdout := stdout w\<rparr> = (w::world)"
  by simp

lemma copyBuffer_data:
  assumes "Read uc (length buf) src = Some ((length d, d, None), src')"
    and "d \<noteq> []" and "length d \<le> length buf"
  shows "copyBuffer uc Stdout src buf w
       = copyBuffer uc Stdout src' (d @ drop (length d) buf) (w\<lparr>stdout := stdout w @ d\<rparr>)"
  using assms by (subst copyBuffer.simps) simp

lemma copyBuffer_eof:
  assumes "Read uc (length buf) src = Some ((0, [], Some EOF), src')"
  shows "copyBuffer uc Stdout src buf w = Some (Copied None, src', w)"
  using assms by (subst copyBuffer.simps) simp

lemma copy_pending:
  assumes "0 < length buf"
  shows "\<exists>buf'. length buf' = length buf
     \<and> copyBuffer uc Stdout (CaseReader rd up m b) buf w
       = copyBuffer uc Stdout (CaseReader rd up [] b) buf' (w\<lparr>stdout := stdout w @ m\<rparr>)"
  using assms
proof (induction m arbitrary: buf w rule: length_induct)
  case (1 m)
  show ?case
  proof (cases "m = []")
    case True
    then show ?thesis by (intro exI [of _ buf]) simp
  next
    case False
    define k where "k = length buf"
    have k: "0 < k" using 1(2) by (simp add: k_def)
    define buf1 where "buf1 = take k m @ drop (length (take k m)) buf"
    have len1: "length buf1 = length buf" by (simp add: buf1_def k_def)
    have ne: "take k m \<noteq> []" using False k by (cases m) simp_all
    have rd: "Read uc (length buf) (CaseReader rd up m b)
        = Some ((length (take k m), take k m, None), CaseReader rd up (drop k m) b)"
      using False by (simp add: Read_CaseReader_pending k_def min.commute)
    have s1: "copyBuffer uc Stdout (CaseReader rd up m b) buf w
        = copyBuffer uc Stdout (CaseReader rd up (drop k m) b) buf1 (w\<lparr>stdout := stdout w @ take k m\<rparr>)"
      unfolding buf1_def by (rule copyBuffer_data [OF rd ne]) (simp add: k_def)
    have "length (drop k m) < length m" using False k by simp
    with 1(1) len1 1(2)
    obtain buf' where "length buf' = length buf1"
      and "copyBuffer uc Stdout (CaseReader rd up (drop k m) b) buf1 (w\<lparr>stdout := stdout w @ take k m\<rparr>)
        = copyBuffer uc Stdout (CaseReader rd up [] b) buf'
            ((w\<lparr>stdout := stdout w @ take k m\<rparr>)\<lparr>stdout := stdout (w\<lparr>stdout := stdout w @ take k m\<rparr>) @ drop k m\<rparr>)"
      by (metis (no_types))
    with s1 len1 show ?thesis
      by (intro exI [of _ buf']) simp
  qed
qed

lemma copy_CaseReader_fed:
  assumes "0 < length buf" and "case_scan uc up b = ([], b)"
  shows "copyBuffer uc Stdout (CaseReader (Src pos (feed chunks)) up [] b) buf w
     = Some (Copied None,
             CaseReader (Src (pos + length (concat chunks)) []) up []
               (snd (case_scan uc up (b @ concat chunks))),
             w\<lparr>stdout := stdout w @ fst (case_scan uc up (b @ concat chunks))\<rparr>)"
  using assms
proof (induction chunks arbitrary: pos b buf w
        rule: measure_induct_rule [where f = "\<lambda>cs. length (concat cs) + length cs"])
  case (less chunks)
  from Read_CaseReader_fed [OF less.prems(1) less.prems(2), of pos chunks]
  obtain d e m' b' pos' chunks' where
    r: "Read uc (length buf) (CaseReader (Src pos (feed chunks)) up [] b)
          = Some ((length d, d, e), CaseReader (Src pos' (feed chunks')) up m' b')"
    and dk: "length d \<le> length buf" and st: "case_scan uc up b' = ([], b')"
    and out: "d @ m' @ fst (case_scan uc up (b' @ concat chunks')) = fst (case_scan uc up (b @ concat chunks))"
    and rest: "snd (case_scan uc up (b' @ concat chunks')) = snd (case_scan uc up (b @ concat chunks))"
    and pos: "pos' + length (concat chunks') = pos + length (concat chunks)"
    and fin: "if e = None
        then d \<noteq> [] \<and> length (concat chunks') + length chunks' < length (concat chunks) + length chunks
        else e = Some EOF \<and> d = [] \<and> m' = [] \<and> chunks' = []"
    by blast
  show ?case
  proof (cases "e = None")
    case False
    with fin have e: "e = Some EOF" "d = []" "m' = []" "chunks' = []" by simp_all
    have "copyBuffer uc Stdout (CaseReader (Src pos (feed chunks)) up [] b) buf w
        = Some (Copied None, CaseReader (Src pos' (feed chunks')) up m' b', w)"
      by (rule copyBuffer_eof) (use r e in simp)
    moreover have "b' = snd (case_scan uc up (b @ concat chunks))"
      using rest e st by simp
    moreover have "fst (case_scan uc up (b @ concat chunks)) = []"
      using out e st by simp
    ultimately show ?thesis using e pos by (simp add: feed_simps)
  next
    case True
    with fin have d: "d \<noteq> []"
      and lt: "length (concat chunks') + length chunks' < length (concat chunks) + length chunks"
      by simp_all
    define buf1 where "buf1 = d @ drop (length d) buf"
    define w1 where "w1 = w\<lparr>stdout := stdout w @ d\<rparr>"
    have len1: "length buf1 = length buf" using dk by (simp add: buf1_def)
    have s1: "copyBuffer uc Stdout (CaseReader (Src pos (feed chunks)) up [] b) buf w
        = copyBuffer uc Stdout (CaseReader (Src pos' (feed chunks')) up m' b') buf1 w1"
      unfolding buf1_def w1_def by (rule copyBuffer_data [OF _ d dk]) (use r True in simp)
    obtain buf2 where len2: "length buf2 = length buf1"
      and s2: "copyBuffer uc Stdout (CaseReader (Src pos' (feed chunks')) up m' b') buf1 w1
        = copyBuffer uc Stdout (CaseReader (Src pos' (feed chunks')) up [] b') buf2
            (w1\<lparr>stdout := stdout w1 @ m'\<rparr>)"
      using copy_pending [of buf1 uc "Src pos' (feed chunks')" up m' b' w1] less.prems(1) len1
      by auto
    have s3: "copyBuffer uc Stdout (CaseReader (Src pos' (feed chunks')) up [] b') buf2
            (w1\<lparr>stdout := stdout w1 @ m'\<rparr>)
        = Some (Copied None,
             CaseReader (Src (pos' + length (concat chunks')) []) up []
               (snd (case_scan uc up (b' @ concat chunks'))),
             (w1\<lparr>stdout := stdout w1 @ m'\<rparr>)
               \<lparr>stdout := stdout (w1\<lparr>stdout := stdout w1 @ m'\<rparr>)
                   @ fst (case_scan uc up (b' @ concat chunks'))\<rparr>)"
      by (rule less.IH [OF lt _ st]) (use len2 len1 less.prems(1) in simp)
    show ?thesis
      unfolding s1 s2 s3 using out rest pos
      by (simp add: w1_def)
  qed
qed

lemma plain_rune_not_error: "plain_rune r \<Longrightarrow> r \<noteq> RuneError"
  by (simp add: plain_rune_def RuneError_def)

lemma EncodeRune_not_Nil: "EncodeRune r \<noteq> []"
  by (simp add: EncodeRune_def)

lemma case_scan_Encode:
  assumes "plain_rune r"
  shows "case_scan uc up (EncodeRune r @ ys)
       = (case_bytes uc up r @ fst (case_scan uc up ys), snd (case_scan uc up ys))"
  using case_scan_go [of "EncodeRune r @ ys" uc up] assms
  by (simp add: DecodeRune_EncodeRune plain_rune_not_error)

lemma case_scan_text:
  "\<forall>r\<in>set rs. plain_rune r \<Longrightarrow>
   case_scan uc up (enc_text rs @ ys)
     = (concat (map (case_bytes uc up) rs) @ fst (case_scan uc up ys), snd (case_scan uc up ys))"
  by (induction rs) (simp_all add: enc_text_def case_scan_Encode)

lemma whole_case_transform_Encode:
  assumes "plain_rune r"
  shows "whole_case_transform uc up (EncodeRune r @ ys)
       = case_bytes uc up r @ whole_case_transform uc up ys"
  using assms
  by (subst whole_case_transform.simps) (simp add: DecodeRune_EncodeRune EncodeRune_not_Nil)

lemma whole_case_transform_text:
  "\<forall>r\<in>set rs. plain_rune r \<Longrightarrow>
   whole_case_transform uc up (enc_text rs) = concat (map (case_bytes uc up) rs)"
proof (induction rs)
  case Nil
  show ?case by (simp add: enc_text_def whole_case_transform.simps)
next
  case (Cons r rs)
  then show ?case
    using whole_case_transform_Encode [of r uc up "enc_text rs"] by (simp add: enc_text_def)
qed




text \<open>
  Claim C8. The bytes of a character, split at any point \<open>j\<close> between two chunks of
  the source, give the same result of the copy loop (the same output, the same final
  reader) as the unsplit chunk, whatever comes before and after, for every buffer size
  of at least 1; and the copy loop returns. It holds for every rune \<open>r\<close>, the
  one-byte ones included.
\<close>

theorem C8_split_character_same_output:
  assumes "0 < k"
  shows "copyBuffer uc Stdout
           (CaseReader
              (Src 0 (feed (before @ [pre @ take j (EncodeRune r), drop j (EncodeRune r) @ post] @ after)))
              toUpper [] [])
           (replicate k 0) w
       = copyBuffer uc Stdout
           (CaseReader (Src 0 (feed (before @ [pre @ EncodeRune r @ post] @ after))) toUpper [] [])
           (replicate k 0) w
     \<and> copyBuffer uc Stdout
           (CaseReader (Src 0 (feed (before @ [pre @ EncodeRune r @ post] @ after))) toUpper [] [])
           (replicate k 0) w \<noteq> None"
proof -
  have ceq: "concat (before @ [pre @ take j (EncodeRune r), drop j (EncodeRune r) @ post] @ after)
      = concat (before @ [pre @ EncodeRune r @ post] @ after)"
    by simp
  have buf: "0 < length (replicate k (0::byte))" using assms by simp
  have nil: "case_scan uc toUpper [] = ([], [])" by simp
  note split = copy_CaseReader_fed [OF buf nil, of 0
      "before @ [pre @ take j (EncodeRune r), drop j (EncodeRune r) @ post] @ after" w]
  note whole = copy_CaseReader_fed [OF buf nil, of 0
      "before @ [pre @ EncodeRune r @ post] @ after" w]
  show ?thesis unfolding split whole ceq by simp
qed

theorem C8_split_character_witness:
  "0 < (2::nat)
   \<and> copyBuffer ascii_tables Stdout
        (CaseReader (Src 0 (feed ([] @ [[0x61] @ take 1 (EncodeRune 0xE9), drop 1 (EncodeRune 0xE9) @ [0x62]] @ [])))
           True [] [])
        (replicate 2 0) example_world
      = copyBuffer ascii_tables Stdout
        (CaseReader (Src 0 (feed ([] @ [[0x61] @ EncodeRune 0xE9 @ [0x62]] @ []))) True [] [])
        (replicate 2 0) example_world
   \<and> copyBuffer ascii_tables Stdout
        (CaseReader (Src 0 (feed ([] @ [[0x61] @ EncodeRune 0xE9 @ [0x62]] @ []))) True [] [])
        (replicate 2 0) example_world \<noteq> None"
  using C8_split_character_same_output [of 2 ascii_tables "[]" "[0x61]" 1 "0xE9" "[0x62]" "[]" True
          example_world]
  by simp

section \<open>The whitespace filter, drained\<close>

lemma trim_scan_Nil [simp]: "trim_scan sk p [] = ([], p, sk)"
  by (simp add: trim_scan.simps)

lemma trim_scan_stop:
  "fst (DecodeRune bs) = RuneError \<Longrightarrow> trim_scan sk p bs = ([], p @ bs, sk)"
  by (subst trim_scan.simps) (simp add: case_prod_beta)

lemma trim_scan_space:
  "fst (DecodeRune bs) \<noteq> RuneError \<Longrightarrow> IsSpace (fst (DecodeRune bs)) \<Longrightarrow>
   trim_scan sk p bs
     = trim_scan sk (p @ take (snd (DecodeRune bs)) bs) (drop (snd (DecodeRune bs)) bs)"
  by (subst trim_scan.simps) (auto simp add: case_prod_beta)

lemma trim_scan_char:
  "fst (DecodeRune bs) \<noteq> RuneError \<Longrightarrow> \<not> IsSpace (fst (DecodeRune bs)) \<Longrightarrow>
   trim_scan sk p bs
     = ((if sk then p @ take (snd (DecodeRune bs)) bs else take (snd (DecodeRune bs)) bs)
          @ fst (trim_scan True [] (drop (snd (DecodeRune bs)) bs)),
        snd (trim_scan True [] (drop (snd (DecodeRune bs)) bs)))"
  by (subst trim_scan.simps) (auto simp add: case_prod_beta)

lemma all_ws_Nil [simp]: "all_ws []"
  by (simp add: all_ws.simps)

lemma all_ws_step:
  "bs \<noteq> [] \<Longrightarrow>
   all_ws bs \<longleftrightarrow> fst (DecodeRune bs) \<noteq> RuneError \<and> IsSpace (fst (DecodeRune bs))
                  \<and> all_ws (drop (snd (DecodeRune bs)) bs)"
  by (subst all_ws.simps) (simp add: case_prod_beta)

lemma subslice_step:
  "fsp \<le> i \<Longrightarrow> subslice buffer fsp (i + sz) = subslice buffer fsp i @ take sz (drop i buffer)"
proof -
  assume le: "fsp \<le> i"
  have "take (i + sz - fsp) (drop fsp buffer)
      = take (i - fsp) (drop fsp buffer) @ take sz (drop (i - fsp) (drop fsp buffer))"
    using le by (metis Nat.add_diff_assoc2 take_add)
  then show ?thesis using le by (simp add: subslice_def)
qed

lemma subslice_same [simp]: "subslice buffer i i = []"
  by (simp add: subslice_def)

lemma subslice_here: "subslice buffer i (i + sz) = take sz (drop i buffer)"
  by (simp add: subslice_def)

lemma trim_loop_scan:
  "fsp \<le> i \<Longrightarrow> i \<le> length buffer \<Longrightarrow>
   trim_loop buffer i fsp trimmed sk =
     (length buffer - length (fst (snd (trim_scan sk (subslice buffer fsp i) (drop i buffer)))),
      trimmed @ fst (trim_scan sk (subslice buffer fsp i) (drop i buffer)),
      snd (snd (trim_scan sk (subslice buffer fsp i) (drop i buffer))))"
proof (induction buffer i fsp trimmed sk rule: trim_loop.induct)
  case (1 buffer i fsp trimmed sk)
  show ?case
  proof (cases "i < length buffer")
    case False
    with 1(4,5) have "i = length buffer" by simp
    moreover have "length (subslice buffer fsp (length buffer)) = length buffer - fsp"
      by (simp add: subslice_def)
    ultimately show ?thesis using 1(4) by (subst trim_loop.simps) simp
  next
    case True
    obtain r sz where d: "DecodeRune (drop i buffer) = (r, sz)"
      by (cases "DecodeRune (drop i buffer)")
    have le: "i + sz \<le> length buffer"
      using DecodeRune_size_le [of "drop i buffer"] d True by simp
    have dd: "drop sz (drop i buffer) = drop (i + sz) buffer" by (simp add: add.commute)
    show ?thesis
    proof (cases "r = RuneError")
      case True
      have "length (subslice buffer fsp i) = i - fsp" using 1(5) by (simp add: subslice_def)
      with True d \<open>i < length buffer\<close> 1(4) show ?thesis
        by (subst trim_loop.simps) (simp add: trim_scan_stop)
    next
      case False
      note ne = False
      show ?thesis
      proof (cases "IsSpace r")
        case True
        have ih: "trim_loop buffer (i + sz) fsp trimmed sk =
          (length buffer - length (fst (snd (trim_scan sk (subslice buffer fsp (i + sz)) (drop (i + sz) buffer)))),
           trimmed @ fst (trim_scan sk (subslice buffer fsp (i + sz)) (drop (i + sz) buffer)),
           snd (snd (trim_scan sk (subslice buffer fsp (i + sz)) (drop (i + sz) buffer))))"
          using 1(1) [OF \<open>i < length buffer\<close> d [symmetric] ne True _ le] 1(4) by simp
        have sc: "trim_scan sk (subslice buffer fsp i) (drop i buffer)
            = trim_scan sk (subslice buffer fsp (i + sz)) (drop (i + sz) buffer)"
          using trim_scan_space [of "drop i buffer" sk "subslice buffer fsp i"] d ne True 1(4)
          by (simp add: subslice_step add.commute [of sz i])
        show ?thesis
          using \<open>i < length buffer\<close> d ne True by (subst trim_loop.simps) (simp add: ih sc)
      next
        case False
        have sc: "trim_scan sk (subslice buffer fsp i) (drop i buffer)
            = ((if sk then subslice buffer fsp (i + sz) else subslice buffer i (i + sz))
                 @ fst (trim_scan True [] (drop (i + sz) buffer)),
               snd (trim_scan True [] (drop (i + sz) buffer)))"
          using trim_scan_char [of "drop i buffer" sk "subslice buffer fsp i"] d ne False 1(4)
          by (simp add: subslice_step subslice_here add.commute [of sz i])
        show ?thesis
        proof (cases sk)
          case True
          then have skT: "sk = True" by simp
          have ih: "trim_loop buffer (i + sz) (i + sz) (trimmed @ subslice buffer fsp (i + sz)) True =
            (length buffer - length (fst (snd (trim_scan True [] (drop (i + sz) buffer)))),
             (trimmed @ subslice buffer fsp (i + sz)) @ fst (trim_scan True [] (drop (i + sz) buffer)),
             snd (snd (trim_scan True [] (drop (i + sz) buffer))))"
            using 1(2) [OF \<open>i < length buffer\<close> d [symmetric] ne False True _ le]
            by (simp add: skT)
          show ?thesis
            using \<open>i < length buffer\<close> d ne False
            unfolding skT
            by (subst trim_loop.simps) (simp add: ih sc [unfolded skT])
        next
          case False
          then have skF: "sk = False" by simp
          have ih: "trim_loop buffer (i + sz) (i + sz) (trimmed @ subslice buffer i (i + sz)) True =
            (length buffer - length (fst (snd (trim_scan True [] (drop (i + sz) buffer)))),
             (trimmed @ subslice buffer i (i + sz)) @ fst (trim_scan True [] (drop (i + sz) buffer)),
             snd (snd (trim_scan True [] (drop (i + sz) buffer))))"
            using 1(3) [OF \<open>i < length buffer\<close> d [symmetric] ne \<open>\<not> IsSpace r\<close> False _ le] by simp
          show ?thesis
            using \<open>i < length buffer\<close> d ne \<open>\<not> IsSpace r\<close>
            unfolding skF
            by (subst trim_loop.simps) (simp add: ih sc [unfolded skF])
        qed
      qed
    qed
  qed
qed

lemma decode2_take:
  "fst (decode2 b0 ps) \<noteq> RuneError \<Longrightarrow> decode2 b0 (take (Suc 0) ps) = decode2 b0 ps"
  by (cases ps) (simp_all add: decode2_def)

lemma decode3_take: "fst (decode3 b0 ps) \<noteq> RuneError \<Longrightarrow> decode3 b0 (take 2 ps) = decode3 b0 ps"
  by (cases ps rule: remdups_adj.cases) (simp_all add: decode3_def numeral_2_eq_2)

lemma decode4_take:
  assumes "fst (decode4 b0 ps) \<noteq> RuneError"
  shows "decode4 b0 (take 3 ps) = decode4 b0 ps"
proof (cases ps)
  case Nil with assms show ?thesis by (simp add: decode4_def)
next
  case (Cons p1 qs)
  with assms show ?thesis
    by (cases qs rule: remdups_adj.cases) (simp_all add: decode4_def numeral_3_eq_3)
qed

lemma decode2_width: "fst (decode2 b0 ps) \<noteq> RuneError \<Longrightarrow> snd (decode2 b0 ps) = 2"
  by (cases ps) (simp_all add: decode2_def split: if_splits)

lemma decode3_width: "fst (decode3 b0 ps) \<noteq> RuneError \<Longrightarrow> snd (decode3 b0 ps) = 3"
  by (cases ps rule: remdups_adj.cases) (simp_all add: decode3_def split: if_splits)

lemma decode4_width:
  assumes "fst (decode4 b0 ps) \<noteq> RuneError"
  shows "snd (decode4 b0 ps) = 4"
proof (cases ps)
  case Nil with assms show ?thesis by (simp add: decode4_def)
next
  case (Cons p1 qs)
  with assms show ?thesis
    by (cases qs rule: remdups_adj.cases) (simp_all add: decode4_def split: if_splits)
qed

lemma DecodeRune_take:
  assumes "fst (DecodeRune bs) \<noteq> RuneError"
  shows "DecodeRune (take (snd (DecodeRune bs)) bs) = DecodeRune bs"
proof (cases bs)
  case Nil with assms show ?thesis by simp
next
  case (Cons p0 ps)
  consider "unat p0 < 0x80" | "\<not> unat p0 < 0x80" "unat p0 < 0xC2 \<or> 0xF4 < unat p0"
    | "\<not> unat p0 < 0xC2" "unat p0 < 0xE0"
    | "\<not> unat p0 < 0xE0" "unat p0 < 0xF0" | "\<not> unat p0 < 0xF0" "\<not> 0xF4 < unat p0"
    by linarith
  then show ?thesis
  proof cases
    case 1 with Cons show ?thesis by simp
  next
    case 2 with Cons assms show ?thesis by simp
  next
    case 3
    with Cons assms have ne: "fst (decode2 (unat p0) ps) \<noteq> RuneError" by simp
    have "take (snd (decode2 (unat p0) ps)) (p0 # ps) = p0 # take 1 ps"
      by (simp add: decode2_width [OF ne])
    with 3 Cons ne show ?thesis by (simp add: decode2_take)
  next
    case 4
    with Cons assms have ne: "fst (decode3 (unat p0) ps) \<noteq> RuneError" by simp
    have "take (snd (decode3 (unat p0) ps)) (p0 # ps) = p0 # take 2 ps"
      by (simp add: decode3_width [OF ne] numeral_3_eq_3 numeral_2_eq_2)
    with 4 Cons ne show ?thesis by (simp add: decode3_take)
  next
    case 5
    with Cons assms have ne: "fst (decode4 (unat p0) ps) \<noteq> RuneError" by simp
    have "take (snd (decode4 (unat p0) ps)) (p0 # ps) = p0 # take 3 ps"
      by (simp add: decode4_width [OF ne] numeral_3_eq_3 numeral_eq_Suc)
    with 5 Cons ne show ?thesis by (simp add: decode4_take)
  qed
qed

lemma all_ws_append: "all_ws p \<Longrightarrow> all_ws q \<Longrightarrow> all_ws (p @ q)"
proof (induction p rule: all_ws.induct)
  case (1 p)
  show ?case
  proof (cases "p = []")
    case True
    with 1(3) show ?thesis by simp
  next
    case False
    with 1(2) have d: "fst (DecodeRune p) \<noteq> RuneError" "IsSpace (fst (DecodeRune p))"
      "all_ws (drop (snd (DecodeRune p)) p)"
      by (simp_all add: all_ws_step)
    have sz: "snd (DecodeRune p) \<le> length p" by (rule DecodeRune_size_le)
    have "all_ws (drop (snd (DecodeRune p)) p @ q)"
      using 1(1) [OF False surjective_pairing [symmetric] d(3) 1(3)] .
    with d sz False show ?thesis
      by (subst all_ws_step) (simp_all add: DecodeRune_append)
  qed
qed

lemma all_ws_char:
  assumes "fst (DecodeRune a) \<noteq> RuneError" and "IsSpace (fst (DecodeRune a))"
  shows "all_ws (take (snd (DecodeRune a)) a)"
proof -
  have ne: "a \<noteq> []" using assms(1) by (cases a) (simp_all add: RuneError_def)
  have pos: "0 < snd (DecodeRune a)" using ne by (rule DecodeRune_size_pos)
  have t: "take (snd (DecodeRune a)) a \<noteq> []" using ne pos by simp
  show ?thesis
    using assms by (subst all_ws_step [OF t]) (simp add: DecodeRune_take)
qed

lemma trim_scan_pending:
  "all_ws p \<Longrightarrow> trim_scan sk q (p @ b) = trim_scan sk (q @ p) b"
proof (induction p arbitrary: q rule: all_ws.induct)
  case (1 p)
  show ?case
  proof (cases "p = []")
    case True
    then show ?thesis by simp
  next
    case False
    with 1(2) have d: "fst (DecodeRune p) \<noteq> RuneError" "IsSpace (fst (DecodeRune p))"
      "all_ws (drop (snd (DecodeRune p)) p)"
      by (simp_all add: all_ws_step)
    define sz where "sz = snd (DecodeRune p)"
    have sz: "sz \<le> length p" unfolding sz_def by (rule DecodeRune_size_le)
    have dd: "DecodeRune (p @ b) = DecodeRune p" using d(1) by (rule DecodeRune_append)
    have "trim_scan sk q (p @ b) = trim_scan sk (q @ take sz p) (drop sz p @ b)"
      using trim_scan_space [of "p @ b" sk q] d dd sz by (simp add: sz_def)
    also have "\<dots> = trim_scan sk ((q @ take sz p) @ drop sz p) b"
      using 1(1) [OF False surjective_pairing [symmetric] d(3), of "q @ take sz p"]
      by (simp add: sz_def)
    finally show ?thesis by simp
  qed
qed

lemma trim_scan_append:
  "all_ws p \<Longrightarrow>
   trim_scan sk p (a @ b) =
     (case trim_scan sk p a of
        (o1, l1, s1) \<Rightarrow>
          (case trim_scan s1 [] (l1 @ b) of (o2, l2, s2) \<Rightarrow> (o1 @ o2, l2, s2)))"
proof (induction sk p a rule: trim_scan.induct)
  case (1 sk p a)
  show ?case
  proof (cases "a = []")
    case True
    then show ?thesis
      using trim_scan_pending [OF 1(3), of sk "[]" b] by (simp split: prod.splits)
  next
    case False
    note ne = False
    define sz where "sz = snd (DecodeRune a)"
    have sz: "sz \<le> length a" unfolding sz_def by (rule DecodeRune_size_le)
    show ?thesis
    proof (cases "fst (DecodeRune a) = RuneError")
      case True
      then show ?thesis
        using trim_scan_pending [OF 1(3), of sk "[]" "a @ b"]
        by (simp add: trim_scan_stop split: prod.splits)
    next
      case False
      have dd: "DecodeRune (a @ b) = DecodeRune a" using False by (rule DecodeRune_append)
      show ?thesis
      proof (cases "IsSpace (fst (DecodeRune a))")
        case True
        have ws: "all_ws (p @ take sz a)"
          unfolding sz_def using 1(3) all_ws_char [OF False True] by (rule all_ws_append)
        have l: "trim_scan sk p (a @ b) = trim_scan sk (p @ take sz a) (drop sz a @ b)"
          using trim_scan_space [of "a @ b" sk p] False True dd sz by (simp add: sz_def)
        have r: "trim_scan sk p a = trim_scan sk (p @ take sz a) (drop sz a)"
          using trim_scan_space [of a sk p] False True by (simp add: sz_def)
        show ?thesis
          unfolding l r
          using 1(1) [OF ne surjective_pairing [symmetric] False True] ws
          by (simp add: sz_def)
      next
        case nsp: False
        have l: "trim_scan sk p (a @ b) =
            ((if sk then p @ take sz a else take sz a) @ fst (trim_scan True [] (drop sz a @ b)),
             snd (trim_scan True [] (drop sz a @ b)))"
          using trim_scan_char [of "a @ b" sk p] False nsp dd sz by (simp add: sz_def)
        have r: "trim_scan sk p a =
            ((if sk then p @ take sz a else take sz a) @ fst (trim_scan True [] (drop sz a)),
             snd (trim_scan True [] (drop sz a)))"
          using trim_scan_char [of a sk p] False nsp by (simp add: sz_def)
        have ih: "trim_scan True [] (drop sz a @ b) =
            (case trim_scan True [] (drop sz a) of
               (o1, l1, s1) \<Rightarrow>
                 (case trim_scan s1 [] (l1 @ b) of (o2, l2, s2) \<Rightarrow> (o1 @ o2, l2, s2)))"
          using 1(2) [OF ne surjective_pairing [symmetric] False nsp] by (simp add: sz_def)
        show ?thesis
          unfolding l r ih by (simp split: prod.splits)
      qed
    qed
  qed
qed

lemma trim_scan_rest_quiet:
  "all_ws p \<Longrightarrow>
   trim_scan (snd (snd (trim_scan sk p a))) [] (fst (snd (trim_scan sk p a)))
     = ([], fst (snd (trim_scan sk p a)), snd (snd (trim_scan sk p a)))"
proof (induction sk p a rule: trim_scan.induct)
  case (1 sk p a)
  show ?case
  proof (cases "a = []")
    case True
    then show ?thesis
      using trim_scan_pending [OF 1(3), of sk "[]" "[]"] by simp
  next
    case False
    note ne = False
    define sz where "sz = snd (DecodeRune a)"
    show ?thesis
    proof (cases "fst (DecodeRune a) = RuneError")
      case True
      then show ?thesis
        using trim_scan_pending [OF 1(3), of sk "[]" a] by (simp add: trim_scan_stop)
    next
      case False
      show ?thesis
      proof (cases "IsSpace (fst (DecodeRune a))")
        case True
        have ws: "all_ws (p @ take sz a)"
          unfolding sz_def using 1(3) all_ws_char [OF False True] by (rule all_ws_append)
        have r: "trim_scan sk p a = trim_scan sk (p @ take sz a) (drop sz a)"
          using trim_scan_space [of a sk p] False True by (simp add: sz_def)
        show ?thesis
          unfolding r
          using 1(1) [OF ne surjective_pairing [symmetric] False True] ws
          by (simp add: sz_def)
      next
        case nsp: False
        have r: "trim_scan sk p a =
            ((if sk then p @ take sz a else take sz a) @ fst (trim_scan True [] (drop sz a)),
             snd (trim_scan True [] (drop sz a)))"
          using trim_scan_char [of a sk p] False nsp by (simp add: sz_def)
        show ?thesis
          unfolding r
          using 1(2) [OF ne surjective_pairing [symmetric] False nsp] by (simp add: sz_def)
      qed
    qed
  qed
qed

lemma trim_scan_rest_suffix:
  "\<exists>pre. p @ a = pre @ fst (snd (trim_scan sk p a))"
proof (induction sk p a rule: trim_scan.induct)
  case (1 sk p a)
  show ?case
  proof (cases "a = [] \<or> fst (DecodeRune a) = RuneError")
    case True
    then show ?thesis by (auto simp add: trim_scan_stop)
  next
    case False
    define sz where "sz = snd (DecodeRune a)"
    show ?thesis
    proof (cases "IsSpace (fst (DecodeRune a))")
      case True
      have r: "trim_scan sk p a = trim_scan sk (p @ take sz a) (drop sz a)"
        using trim_scan_space [of a sk p] False True by (simp add: sz_def)
      show ?thesis
        unfolding r
        using 1(1) [OF _ surjective_pairing [symmetric] _ True] False by (simp add: sz_def)
    next
      case nsp: False
      have r: "trim_scan sk p a =
          ((if sk then p @ take sz a else take sz a) @ fst (trim_scan True [] (drop sz a)),
           snd (trim_scan True [] (drop sz a)))"
        using trim_scan_char [of a sk p] False nsp by (simp add: sz_def)
      obtain pre where "drop sz a = pre @ fst (snd (trim_scan True [] (drop sz a)))"
        using 1(2) [OF _ surjective_pairing [symmetric] _ nsp] False by (auto simp add: sz_def)
      then have "p @ a = (p @ take sz a @ pre) @ fst (snd (trim_scan True [] (drop sz a)))"
        by (metis append.assoc append_take_drop_id)
      then show ?thesis unfolding r by (intro exI [of _ "p @ take sz a @ pre"]) simp
    qed
  qed
qed

lemma trim_scan_rest_drop:
  "drop (length bs - length (fst (snd (trim_scan sk [] bs)))) bs = fst (snd (trim_scan sk [] bs))"
proof -
  obtain pre where "bs = pre @ fst (snd (trim_scan sk [] bs))"
    using trim_scan_rest_suffix [of "[]" bs sk] by auto
  then show ?thesis by (metis add_diff_cancel_right' append_eq_conv_conj length_append)
qed

lemma Read_TrimReader_pending:
  "trimmed \<noteq> [] \<Longrightarrow>
   Read uc k (TrimReader rd buffer trimmed sk) =
     Some ((min k (length trimmed), take k trimmed, None), TrimReader rd buffer (drop k trimmed) sk)"
  by (subst Read.simps) (simp add: copyFromChecked_def Let_def min_def)

lemma Read_TrimReader_fill:
  "Read uc k (TrimReader rd buffer [] sk) =
     do {
       (res, rd') \<leftarrow> Read uc k rd;
       (case res of
          (n, d, err) \<Rightarrow>
            if err \<noteq> None then Some ((n, [], err), TrimReader rd' buffer [] sk)
            else Read uc k
                   (TrimReader rd'
                      (fst (snd (trim_scan sk [] (buffer @ filled (replicate k 0) res))))
                      (fst (trim_scan sk [] (buffer @ filled (replicate k 0) res)))
                      (snd (snd (trim_scan sk [] (buffer @ filled (replicate k 0) res))))))
     }"
proof -
  have loop: "\<And>b. trim_loop b 0 0 [] sk =
      (length b - length (fst (snd (trim_scan sk [] b))), fst (trim_scan sk [] b),
       snd (snd (trim_scan sk [] b)))"
    using trim_loop_scan [of 0 0 _ "[]" sk] by simp
  show ?thesis
    apply (subst Read.simps)
    apply simp
    apply (rule Option.bind_cong [OF refl])
    apply (simp add: loop Let_def trim_scan_rest_drop split: prod.splits cong del: if_weak_cong)
    done
qed

lemma trim_scan_append_Nil:
  "trim_scan sk [] (a @ b) =
     (fst (trim_scan sk [] a)
        @ fst (trim_scan (snd (snd (trim_scan sk [] a))) [] (fst (snd (trim_scan sk [] a)) @ b)),
      snd (trim_scan (snd (snd (trim_scan sk [] a))) [] (fst (snd (trim_scan sk [] a)) @ b)))"
  using trim_scan_append [of "[]" sk a b] by (simp split: prod.splits)

lemma trim_scan_rest_quiet_Nil:
  "trim_scan (snd (snd (trim_scan sk [] a))) [] (fst (snd (trim_scan sk [] a)))
     = ([], fst (snd (trim_scan sk [] a)), snd (snd (trim_scan sk [] a)))"
  using trim_scan_rest_quiet [of "[]" sk a] by simp

lemma Read_TrimReader_fed:
  assumes k: "0 < k" and quiet: "trim_scan sk [] b = ([], b, sk)"
  shows "\<exists>d e t' b' sk' pos' chunks'.
      Read uc k (TrimReader (Src pos (feed chunks)) b [] sk)
        = Some ((length d, d, e), TrimReader (Src pos' (feed chunks')) b' t' sk')
    \<and> length d \<le> k \<and> trim_scan sk' [] b' = ([], b', sk')
    \<and> d @ t' @ fst (trim_scan sk' [] (b' @ concat chunks')) = fst (trim_scan sk [] (b @ concat chunks))
    \<and> snd (trim_scan sk' [] (b' @ concat chunks')) = snd (trim_scan sk [] (b @ concat chunks))
    \<and> pos' + length (concat chunks') = pos + length (concat chunks)
    \<and> (if e = None
        then d \<noteq> [] \<and> length (concat chunks') + length chunks' < length (concat chunks) + length chunks
        else e = Some EOF \<and> d = [] \<and> t' = [] \<and> chunks' = [])"
  using quiet
proof (induction chunks arbitrary: pos b sk
        rule: measure_induct_rule [where f = "\<lambda>cs. length (concat cs) + length cs"])
  case (less chunks)
  note quiet = less.prems
  show ?case
  proof (cases chunks)
    case Nil
    have "Read uc k (TrimReader (Src pos (feed [])) b [] sk)
        = Some ((length ([]::byte list), [], Some EOF), TrimReader (Src pos (feed [])) b [] sk)"
      using k by (subst Read_TrimReader_fill) (simp add: Read_Src feed_simps)
    then show ?thesis
      unfolding Nil using quiet
      by (intro exI [of _ "[]"] exI [of _ "Some EOF"] exI [of _ b] exI [of _ sk] exI [of _ pos]) simp
  next
    case (Cons c cs)
    obtain d0 chunks1 where
      sr: "src_read k pos (feed (c # cs)) = ((length d0, d0, None), pos + length d0, feed chunks1)"
      and cc: "concat (c # cs) = d0 @ concat chunks1"
      and lt: "length (concat chunks1) + length chunks1 < length (concat (c # cs)) + length (c # cs)"
      and dk: "length d0 \<le> k"
      using src_read_feed [OF k] by blast
    define o1 where "o1 = fst (trim_scan sk [] (b @ d0))"
    define l1 where "l1 = fst (snd (trim_scan sk [] (b @ d0)))"
    define s1 where "s1 = snd (snd (trim_scan sk [] (b @ d0)))"
    have l1_quiet: "trim_scan s1 [] l1 = ([], l1, s1)"
      unfolding l1_def s1_def by (rule trim_scan_rest_quiet_Nil)
    have step: "Read uc k (TrimReader (Src pos (feed chunks)) b [] sk)
        = Read uc k (TrimReader (Src (pos + length d0) (feed chunks1)) l1 o1 s1)"
      unfolding Cons
      by (subst Read_TrimReader_fill) (simp add: Read_Src sr filled_ok dk o1_def l1_def s1_def)
    have whole: "trim_scan sk [] (b @ concat chunks) =
        (o1 @ fst (trim_scan s1 [] (l1 @ concat chunks1)), snd (trim_scan s1 [] (l1 @ concat chunks1)))"
      using trim_scan_append_Nil [of sk "b @ d0" "concat chunks1"] cc Cons
      by (simp add: o1_def l1_def s1_def)
    have pos: "pos + length d0 + length (concat chunks1) = pos + length (concat chunks)"
      using cc Cons by simp
    show ?thesis
    proof (cases "o1 = []")
      case True
      from less.IH [of chunks1 s1 l1 "pos + length d0"] lt Cons l1_quiet
      obtain d e t' b' sk' pos' chunks' where
        r: "Read uc k (TrimReader (Src (pos + length d0) (feed chunks1)) l1 [] s1)
              = Some ((length d, d, e), TrimReader (Src pos' (feed chunks')) b' t' sk')"
        and p: "length d \<le> k" "trim_scan sk' [] b' = ([], b', sk')"
          "d @ t' @ fst (trim_scan sk' [] (b' @ concat chunks')) = fst (trim_scan s1 [] (l1 @ concat chunks1))"
          "snd (trim_scan sk' [] (b' @ concat chunks')) = snd (trim_scan s1 [] (l1 @ concat chunks1))"
          "pos' + length (concat chunks') = pos + length d0 + length (concat chunks1)"
          "if e = None
           then d \<noteq> [] \<and> length (concat chunks') + length chunks' < length (concat chunks1) + length chunks1
           else e = Some EOF \<and> d = [] \<and> t' = [] \<and> chunks' = []"
        by blast
      have "if e = None
           then d \<noteq> [] \<and> length (concat chunks') + length chunks' < length (concat chunks) + length chunks
           else e = Some EOF \<and> d = [] \<and> t' = [] \<and> chunks' = []"
        using p(6) lt Cons by (auto split: if_splits)
      with r p(1-5) True show ?thesis
        unfolding step whole pos [symmetric]
        by (intro exI [of _ d] exI [of _ e] exI [of _ t'] exI [of _ b'] exI [of _ sk']
              exI [of _ pos'] exI [of _ chunks']) simp
    next
      case False
      have r: "Read uc k (TrimReader (Src (pos + length d0) (feed chunks1)) l1 o1 s1)
          = Some ((length (take k o1), take k o1, None),
                  TrimReader (Src (pos + length d0) (feed chunks1)) l1 (drop k o1) s1)"
        using False by (simp add: Read_TrimReader_pending min.commute)
      have ne: "take k o1 \<noteq> []" using False k by (cases o1) simp_all
      show ?thesis
        unfolding step whole
        using r l1_quiet ne lt Cons pos
        by (intro exI [of _ "take k o1"] exI [of _ None] exI [of _ "drop k o1"] exI [of _ l1]
              exI [of _ s1] exI [of _ "pos + length d0"] exI [of _ chunks1]) simp
    qed
  qed
qed

lemma copy_pending_trim:
  assumes "0 < length buf"
  shows "\<exists>buf'. length buf' = length buf
     \<and> copyBuffer uc Stdout (TrimReader rd b m sk) buf w
       = copyBuffer uc Stdout (TrimReader rd b [] sk) buf' (w\<lparr>stdout := stdout w @ m\<rparr>)"
  using assms
proof (induction m arbitrary: buf w rule: length_induct)
  case (1 m)
  show ?case
  proof (cases "m = []")
    case True
    then show ?thesis by (intro exI [of _ buf]) simp
  next
    case False
    define k where "k = length buf"
    have k: "0 < k" using 1(2) by (simp add: k_def)
    define buf1 where "buf1 = take k m @ drop (length (take k m)) buf"
    have len1: "length buf1 = length buf" by (simp add: buf1_def k_def)
    have ne: "take k m \<noteq> []" using False k by (cases m) simp_all
    have rd: "Read uc (length buf) (TrimReader rd b m sk)
        = Some ((length (take k m), take k m, None), TrimReader rd b (drop k m) sk)"
      using False by (simp add: Read_TrimReader_pending k_def min.commute)
    have s1: "copyBuffer uc Stdout (TrimReader rd b m sk) buf w
        = copyBuffer uc Stdout (TrimReader rd b (drop k m) sk) buf1 (w\<lparr>stdout := stdout w @ take k m\<rparr>)"
      unfolding buf1_def by (rule copyBuffer_data [OF rd ne]) (simp add: k_def)
    have "length (drop k m) < length m" using False k by simp
    with 1(1) len1 1(2)
    obtain buf' where "length buf' = length buf1"
      and "copyBuffer uc Stdout (TrimReader rd b (drop k m) sk) buf1 (w\<lparr>stdout := stdout w @ take k m\<rparr>)
        = copyBuffer uc Stdout (TrimReader rd b [] sk) buf'
            ((w\<lparr>stdout := stdout w @ take k m\<rparr>)\<lparr>stdout := stdout (w\<lparr>stdout := stdout w @ take k m\<rparr>) @ drop k m\<rparr>)"
      by (metis (no_types))
    with s1 len1 show ?thesis
      by (intro exI [of _ buf']) simp
  qed
qed

lemma copy_TrimReader_fed:
  assumes "0 < length buf" and "trim_scan sk [] b = ([], b, sk)"
  shows "copyBuffer uc Stdout (TrimReader (Src pos (feed chunks)) b [] sk) buf w
     = Some (Copied None,
             TrimReader (Src (pos + length (concat chunks)) [])
               (fst (snd (trim_scan sk [] (b @ concat chunks)))) []
               (snd (snd (trim_scan sk [] (b @ concat chunks)))),
             w\<lparr>stdout := stdout w @ fst (trim_scan sk [] (b @ concat chunks))\<rparr>)"
  using assms
proof (induction chunks arbitrary: pos b sk buf w
        rule: measure_induct_rule [where f = "\<lambda>cs. length (concat cs) + length cs"])
  case (less chunks)
  from Read_TrimReader_fed [OF less.prems(1) less.prems(2), of uc pos chunks]
  obtain d e t' b' sk' pos' chunks' where
    r: "Read uc (length buf) (TrimReader (Src pos (feed chunks)) b [] sk)
          = Some ((length d, d, e), TrimReader (Src pos' (feed chunks')) b' t' sk')"
    and dk: "length d \<le> length buf" and st: "trim_scan sk' [] b' = ([], b', sk')"
    and out: "d @ t' @ fst (trim_scan sk' [] (b' @ concat chunks')) = fst (trim_scan sk [] (b @ concat chunks))"
    and rest: "snd (trim_scan sk' [] (b' @ concat chunks')) = snd (trim_scan sk [] (b @ concat chunks))"
    and pos: "pos' + length (concat chunks') = pos + length (concat chunks)"
    and fin: "if e = None
        then d \<noteq> [] \<and> length (concat chunks') + length chunks' < length (concat chunks) + length chunks
        else e = Some EOF \<and> d = [] \<and> t' = [] \<and> chunks' = []"
    by blast
  show ?case
  proof (cases "e = None")
    case False
    with fin have e: "e = Some EOF" "d = []" "t' = []" "chunks' = []" by simp_all
    have "copyBuffer uc Stdout (TrimReader (Src pos (feed chunks)) b [] sk) buf w
        = Some (Copied None, TrimReader (Src pos' (feed chunks')) b' t' sk', w)"
      by (rule copyBuffer_eof) (use r e in simp)
    moreover have "snd (trim_scan sk [] (b @ concat chunks)) = (b', sk')"
      using rest e st by simp
    moreover have "fst (trim_scan sk [] (b @ concat chunks)) = []"
      using out e st by simp
    ultimately show ?thesis using e pos by (simp add: feed_simps)
  next
    case True
    with fin have d: "d \<noteq> []"
      and lt: "length (concat chunks') + length chunks' < length (concat chunks) + length chunks"
      by simp_all
    define buf1 where "buf1 = d @ drop (length d) buf"
    define w1 where "w1 = w\<lparr>stdout := stdout w @ d\<rparr>"
    have len1: "length buf1 = length buf" using dk by (simp add: buf1_def)
    have s1: "copyBuffer uc Stdout (TrimReader (Src pos (feed chunks)) b [] sk) buf w
        = copyBuffer uc Stdout (TrimReader (Src pos' (feed chunks')) b' t' sk') buf1 w1"
      unfolding buf1_def w1_def by (rule copyBuffer_data [OF _ d dk]) (use r True in simp)
    obtain buf2 where len2: "length buf2 = length buf1"
      and s2: "copyBuffer uc Stdout (TrimReader (Src pos' (feed chunks')) b' t' sk') buf1 w1
        = copyBuffer uc Stdout (TrimReader (Src pos' (feed chunks')) b' [] sk') buf2
            (w1\<lparr>stdout := stdout w1 @ t'\<rparr>)"
      using copy_pending_trim [of buf1 uc "Src pos' (feed chunks')" b' t' sk' w1] less.prems(1) len1
      by auto
    have s3: "copyBuffer uc Stdout (TrimReader (Src pos' (feed chunks')) b' [] sk') buf2
            (w1\<lparr>stdout := stdout w1 @ t'\<rparr>)
        = Some (Copied None,
             TrimReader (Src (pos' + length (concat chunks')) [])
               (fst (snd (trim_scan sk' [] (b' @ concat chunks')))) []
               (snd (snd (trim_scan sk' [] (b' @ concat chunks')))),
             (w1\<lparr>stdout := stdout w1 @ t'\<rparr>)
               \<lparr>stdout := stdout (w1\<lparr>stdout := stdout w1 @ t'\<rparr>)
                   @ fst (trim_scan sk' [] (b' @ concat chunks'))\<rparr>)"
      by (rule less.IH [OF lt _ st]) (use len2 len1 less.prems(1) in simp)
    show ?thesis
      unfolding s1 s2 s3 using out rest pos
      by (simp add: w1_def)
  qed
qed

lemma IsSpace_plain: "IsSpace r \<Longrightarrow> plain_rune r"
  by (auto simp add: IsSpace_def plain_rune_def split: if_splits)

lemma strip_right_Cons:
  "strip_right (r # rs) = (if IsSpace r \<and> (\<forall>x\<in>set rs. IsSpace x) then [] else r # strip_right rs)"
  by (simp add: strip_right_def dropWhile_append)

lemma strip_right_spaces: "\<forall>x\<in>set rs. IsSpace x \<Longrightarrow> strip_right rs = []"
  by (simp add: strip_right_def)

lemma trailing_spaces_spaces: "\<forall>x\<in>set rs. IsSpace x \<Longrightarrow> trailing_spaces rs = rs"
proof -
  assume "\<forall>x\<in>set rs. IsSpace x"
  then have tw: "takeWhile IsSpace (rev rs) = rev rs" by (simp add: takeWhile_eq_all_conv)
  show ?thesis unfolding trailing_spaces_def tw by simp
qed

lemma trailing_spaces_Cons:
  "trailing_spaces (r # rs)
     = (if IsSpace r \<and> (\<forall>x\<in>set rs. IsSpace x) then r # rs else trailing_spaces rs)"
proof (cases "\<forall>x\<in>set rs. IsSpace x")
  case True
  then have tw: "takeWhile IsSpace (rev rs) = rev rs" by (simp add: takeWhile_eq_all_conv)
  have "takeWhile IsSpace (rev rs @ [r]) = (if IsSpace r then rev rs @ [r] else rev rs)"
    using True by (simp add: takeWhile_append)
  then show ?thesis using True unfolding trailing_spaces_def tw by simp
next
  case False
  then have n: "(\<forall>x\<in>set rs. IsSpace x) = False" by simp
  show ?thesis by (simp add: trailing_spaces_def takeWhile_append n)
qed

lemma trim_scan_Encode_space:
  assumes "IsSpace r"
  shows "trim_scan sk p (EncodeRune r @ ys) = trim_scan sk (p @ EncodeRune r) ys"
  using trim_scan_space [of "EncodeRune r @ ys" sk p] assms
  by (simp add: DecodeRune_EncodeRune IsSpace_plain plain_rune_not_error)

lemma trim_scan_Encode_char:
  assumes "plain_rune r" and "\<not> IsSpace r"
  shows "trim_scan sk p (EncodeRune r @ ys)
       = ((if sk then p @ EncodeRune r else EncodeRune r) @ fst (trim_scan True [] ys),
          snd (trim_scan True [] ys))"
  using trim_scan_char [of "EncodeRune r @ ys" sk p] assms
  by (simp add: DecodeRune_EncodeRune plain_rune_not_error)

lemma enc_text_Cons: "enc_text (r # rs) = EncodeRune r @ enc_text rs"
  by (simp add: enc_text_def)

lemma enc_text_Nil: "enc_text [] = []"
  by (simp add: enc_text_def)

lemma trim_scan_text:
  "\<forall>r\<in>set rs. plain_rune r \<Longrightarrow>
   trim_scan sk p (enc_text rs)
     = (if \<forall>r\<in>set rs. IsSpace r then ([], p @ enc_text rs, sk)
        else ((if sk then p @ enc_text (strip_right rs) else enc_text (strip_spaces rs)),
              enc_text (trailing_spaces rs), True))"
proof (induction rs arbitrary: sk p)
  case Nil
  show ?case by (simp add: enc_text_Nil)
next
  case (Cons r rs)
  then have pr: "plain_rune r" and prs: "\<forall>r\<in>set rs. plain_rune r" by simp_all
  note IH = Cons.IH [OF prs]
  show ?case
  proof (cases "IsSpace r")
    case True
    show ?thesis
    proof (cases "\<forall>x\<in>set rs. IsSpace x")
      case all: True
      then show ?thesis
        using True by (simp add: enc_text_Cons trim_scan_Encode_space IH)
    next
      case False
      then have n: "(\<forall>x\<in>set rs. IsSpace x) = False" "Ball (set rs) IsSpace = False"
        by simp_all
      show ?thesis
        using True
        by (simp add: enc_text_Cons trim_scan_Encode_space IH strip_right_Cons trailing_spaces_Cons
            strip_spaces_def n)
    qed
  next
    case False
    show ?thesis
    proof (cases "\<forall>x\<in>set rs. IsSpace x")
      case True
      then show ?thesis
        using False pr
        by (simp add: enc_text_Cons trim_scan_Encode_char IH strip_right_Cons trailing_spaces_Cons
            strip_spaces_def strip_right_spaces trailing_spaces_spaces enc_text_Nil)
    next
      case nall: False
      then have n: "(\<forall>x\<in>set rs. IsSpace x) = False" "Ball (set rs) IsSpace = False"
        by simp_all
      show ?thesis
        using False pr
        by (simp add: enc_text_Cons trim_scan_Encode_char IH strip_right_Cons trailing_spaces_Cons
            strip_spaces_def n)
    qed
  qed
qed

text \<open>
  Claim C1 says that a run of whitespace between two other characters is replaced by its
  first character, so that \<^verbatim>\<open>a\\t\\tb\<close> gives \<^verbatim>\<open>a\\tb\<close>. The loop appends
  \<^verbatim>\<open>buffer[firstSpacePos:i+runeSize]\<close>, the whole run and the character after it: the
  filter delivers \<^verbatim>\<open>a\\t\\tb\<close> unchanged.
\<close>

theorem C1_tab_run_counterexample:
  "copyBuffer ascii_tables Stdout (TrimReader (Src 0 (feed [[0x61, 0x09, 0x09, 0x62]])) [] [] False)
     (replicate 1024 0) example_world
   = Some (Copied None, TrimReader (Src 4 []) [] [] True,
           example_world\<lparr>stdout := [0x61, 0x09, 0x09, 0x62]\<rparr>)
   \<and> [0x61, 0x09, 0x09, 0x62] \<noteq> [0x61, 0x09, 0x62 :: byte]"
proof -
  have s: "stdout example_world = []" by (simp add: example_world_def)
  have a: "trim_scan False [] [0x61, 0x09, 0x09, 0x62] = ([0x61, 0x09, 0x09, 0x62], [], True)"
    by (simp add: trim_scan.simps IsSpace_def RuneError_def)
  show ?thesis
    using copy_TrimReader_fed [of "replicate 1024 0" False "[]" ascii_tables 0
            "[[0x61, 0x09, 0x09, 0x62]]" example_world]
    by (simp add: a s)
qed

text \<open>
  Claim C1, amended. For every text of Unicode scalar values other than U+FFFD, written
  in UTF-8, for every way the source chunks its reads and every buffer size of at least
  1, the copy loop ends without an error and has written the text without its leading
  and its trailing whitespace; every run of whitespace between two other characters is
  written as it is. The trailing whitespace stays in the buffer of the filter. The
  witness is \<^verbatim>\<open> a\\t\\tb  \<close>, read in two chunks through a buffer of one byte.
\<close>

theorem C1_trim_filter_drain:
  assumes "0 < k" and "\<forall>r\<in>set rs. plain_rune r" and "concat chunks = enc_text rs"
  shows "copyBuffer uc Stdout (TrimReader (Src 0 (feed chunks)) [] [] False) (replicate k 0) w
       = Some (Copied None,
               TrimReader (Src (length (concat chunks)) []) (enc_text (trailing_spaces rs)) []
                 (\<exists>r\<in>set rs. \<not> IsSpace r),
               w\<lparr>stdout := stdout w @ enc_text (strip_spaces rs)\<rparr>)"
proof -
  have "trim_scan False [] (concat chunks)
      = (enc_text (strip_spaces rs), enc_text (trailing_spaces rs), \<exists>r\<in>set rs. \<not> IsSpace r)"
    using trim_scan_text [OF assms(2), of False "[]"]
    by (simp add: assms(3) strip_spaces_def strip_right_spaces trailing_spaces_spaces enc_text_Nil)
  then show ?thesis
    using copy_TrimReader_fed [of "replicate k 0" False "[]" uc 0 chunks w] assms(1) by simp
qed

theorem C1_trim_filter_drain_witness:
  "0 < (1::nat) \<and> list_all plain_rune [0x20, 0x61, 0x09, 0x09, 0x62, 0x20, 0x20]
   \<and> concat [[0x20, 0x61, 0x09], [0x09, 0x62, 0x20, 0x20]]
       = enc_text [0x20, 0x61, 0x09, 0x09, 0x62, 0x20, 0x20]
   \<and> copyBuffer ascii_tables Stdout
        (TrimReader (Src 0 (feed [[0x20, 0x61, 0x09], [0x09, 0x62, 0x20, 0x20]])) [] [] False)
        (replicate 1 0) example_world
      = Some (Copied None, TrimReader (Src 7 []) [0x20, 0x20] [] True,
              example_world\<lparr>stdout := [0x61, 0x09, 0x09, 0x62]\<rparr>)"
proof -
  have p: "\<forall>r\<in>set [0x20, 0x61, 0x09, 0x09, 0x62, 0x20, 0x20]. plain_rune r"
    by (simp add: plain_rune_def)
  have e: "concat [[0x20, 0x61, 0x09], [0x09, 0x62, 0x20, 0x20]]
      = enc_text [0x20, 0x61, 0x09, 0x09, 0x62, 0x20, 0x20]"
    by (simp add: enc_text_def EncodeRune_def)
  have t: "enc_text (strip_spaces [0x20, 0x61, 0x09, 0x09, 0x62, 0x20, 0x20]) = [0x61, 0x09, 0x09, 0x62]"
    "enc_text (trailing_spaces [0x20, 0x61, 0x09, 0x09, 0x62, 0x20, 0x20]) = [0x20, 0x20]"
    by (simp_all add: strip_spaces_def strip_right_def trailing_spaces_def IsSpace_def enc_text_def
        EncodeRune_def)
  have n: "\<exists>r\<in>set [0x20, 0x61, 0x09, 0x09, 0x62, 0x20, 0x20]. \<not> IsSpace r"
    by (simp add: IsSpace_def)
  have s: "stdout example_world = []" by (simp add: example_world_def)
  have k: "0 < (1::nat)" by simp
  show ?thesis
    using C1_trim_filter_drain [OF k p e, of ascii_tables example_world] n
    by (simp add: s t plain_rune_def e [symmetric])
qed

text \<open>
  Claim C9. For every text of whitespace characters only, of any length, for every way
  the source chunks its reads and every buffer size of at least 1, the copy loop ends
  without an error and has written nothing: the output is as it was. The witness has a
  three-byte space, U+3000, split between two chunks.
\<close>

theorem C9_whitespace_only_gives_empty_output:
  assumes "0 < k" and "\<forall>r\<in>set rs. IsSpace r" and "concat chunks = enc_text rs"
  shows "copyBuffer uc Stdout (TrimReader (Src 0 (feed chunks)) [] [] False) (replicate k 0) w
       = Some (Copied None,
               TrimReader (Src (length (concat chunks)) []) (concat chunks) [] False, w)"
proof -
  have "\<forall>r\<in>set rs. plain_rune r" using assms(2) by (simp add: IsSpace_plain)
  then have "trim_scan False [] (concat chunks) = ([], concat chunks, False)"
    using trim_scan_text [of rs False "[]"] assms(2,3) by simp
  then show ?thesis
    using copy_TrimReader_fed [of "replicate k 0" False "[]" uc 0 chunks w] assms(1) by simp
qed

theorem C9_whitespace_only_witness:
  "0 < (1::nat) \<and> list_all IsSpace [0x20, 0x09, 0x3000, 0x0A]
   \<and> concat [[0x20, 0x09, 0xE3], [0x80, 0x80, 0x0A]] = enc_text [0x20, 0x09, 0x3000, 0x0A]
   \<and> copyBuffer ascii_tables Stdout
        (TrimReader (Src 0 (feed [[0x20, 0x09, 0xE3], [0x80, 0x80, 0x0A]])) [] [] False)
        (replicate 1 0) example_world
      = Some (Copied None, TrimReader (Src 6 []) [0x20, 0x09, 0xE3, 0x80, 0x80, 0x0A] [] False,
              example_world)"
proof -
  have p: "\<forall>r\<in>set [0x20, 0x09, 0x3000, 0x0A]. IsSpace r"
    by (simp add: IsSpace_def)
  have e: "concat [[0x20, 0x09, 0xE3], [0x80, 0x80, 0x0A]] = enc_text [0x20, 0x09, 0x3000, 0x0A]"
    by (simp add: enc_text_def EncodeRune_def)
  have k: "0 < (1::nat)" by simp
  show ?thesis
    using C9_whitespace_only_gives_empty_output [OF k p e, of ascii_tables example_world]
    by (simp add: IsSpace_def e [symmetric])
qed

section \<open>The carry buffers\<close>

lemma case_scan_stuck_tail:
  "undecoded_tail (snd (case_scan uc up bs))"
proof (induction uc up bs rule: case_scan.induct)
  case (1 uc up bs)
  show ?case
  proof (cases "bs = [] \<or> fst (DecodeRune bs) = RuneError")
    case True
    then show ?thesis by (auto simp add: case_scan_stop undecoded_tail_def)
  next
    case False
    then show ?thesis
      using 1 [OF _ surjective_pairing [symmetric]] by (simp add: case_scan_go)
  qed
qed

lemma trim_scan_rest_shape:
  "all_ws p \<Longrightarrow>
   \<exists>ws tail. fst (snd (trim_scan sk p a)) = ws @ tail \<and> all_ws ws \<and> undecoded_tail tail"
proof (induction sk p a rule: trim_scan.induct)
  case (1 sk p a)
  show ?case
  proof (cases "a = [] \<or> fst (DecodeRune a) = RuneError")
    case True
    then have "fst (snd (trim_scan sk p a)) = p @ a"
      by (auto simp add: trim_scan_stop)
    moreover have "undecoded_tail a" using True by (simp add: undecoded_tail_def)
    ultimately show ?thesis using 1(3) by blast
  next
    case False
    then have ne: "a \<noteq> []" and ok: "fst (DecodeRune a) \<noteq> RuneError" by simp_all
    show ?thesis
    proof (cases "IsSpace (fst (DecodeRune a))")
      case True
      have "all_ws (p @ take (snd (DecodeRune a)) a)"
        using 1(3) all_ws_char [OF ok True] by (rule all_ws_append)
      from 1(1) [OF ne surjective_pairing [symmetric] ok True this]
      show ?thesis by (simp add: trim_scan_space [OF ok True])
    next
      case False
      from 1(2) [OF ne surjective_pairing [symmetric] ok False all_ws_Nil]
      show ?thesis by (simp add: trim_scan_char [OF ok False])
    qed
  qed
qed



section \<open>What a read returns\<close>

lemma src_read_ok: "result_ok k (fst (src_read k pos evs))"
proof (cases evs)
  case Nil
  then show ?thesis by (simp add: result_ok_def)
next
  case (Cons ev evs')
  then show ?thesis by (cases ev) (simp_all add: result_ok_def)
qed

lemma result_ok_mono: "result_ok k' res \<Longrightarrow> k' \<le> k \<Longrightarrow> result_ok k res"
  by (auto simp add: result_ok_def)

lemma copyFromChecked_ok:
  "copyFromChecked k pending = (d, pending', n) \<Longrightarrow> result_ok k (n, d, None)"
  by (auto simp add: copyFromChecked_def Let_def result_ok_def)

lemma Read_result_ok:
  assumes "Read uc k rd = Some y"
  shows "result_ok k (fst y)"
proof (rule Read.raw_induct [where P = "\<lambda>uc k rd y. result_ok k (fst y)", OF _ assms], goal_cases)
  case (1 Read uc k rd y)
  show ?case
  proof (cases rd)
    case (Src pos evs)
    with 1(2) have "fst y = fst (src_read k pos evs)"
      by (auto split: prod.splits)
    then show ?thesis by (simp add: src_read_ok)
  next
    case (LimitedReader R N)
    show ?thesis
    proof (cases "N \<le> 0")
      case True
      with 1(2) LimitedReader show ?thesis by (auto simp add: result_ok_def)
    next
      case False
      with 1(2) LimitedReader obtain R' where
        "Read uc (if N < int k then nat N else k) R = Some (fst y, R')"
        by (auto split: Option.bind_splits prod.splits)
      from 1(1) [OF this] have "result_ok (if N < int k then nat N else k) (fst y)" by simp
      moreover have "(if N < int k then nat N else k) \<le> k" by auto
      ultimately show ?thesis by (rule result_ok_mono)
    qed
  next
    case (CaseReader reader toUpper mapped buffer)
    show ?thesis
    proof (cases "mapped = []")
      case False
      with 1(2) CaseReader show ?thesis
        by (auto split: prod.splits dest: copyFromChecked_ok)
    next
      case True
      with 1(2) CaseReader obtain n d err reader' where
        up: "Read uc k reader = Some ((n, d, err), reader')"
        and rest: "(if err \<noteq> None then Some ((n, [], err), CaseReader reader' toUpper mapped buffer)
             else (let buffer1 = buffer @ filled (replicate k 0) (n, d, err)
                   in case case_loop uc toUpper buffer1 0 mapped of
                        (i, mapped1) \<Rightarrow>
                          Read uc k (CaseReader reader' toUpper mapped1 (drop i buffer1)))) = Some y"
        by (auto split: Option.bind_splits prod.splits)
      from 1(1) [OF up] have ok: "result_ok k (n, d, err)" by simp
      show ?thesis
      proof (cases "err = None")
        case False
        with rest ok show ?thesis by (auto simp add: result_ok_def)
      next
        case True
        with rest obtain rdx where "Read uc k rdx = Some y"
          by (auto simp add: Let_def split: prod.splits)
        then show ?thesis by (rule 1(1))
      qed
    qed
  next
    case (TrimReader reader buffer trimmed skippedSpaces)
    show ?thesis
    proof (cases "trimmed = []")
      case False
      with 1(2) TrimReader show ?thesis
        by (auto split: prod.splits dest: copyFromChecked_ok)
    next
      case True
      with 1(2) TrimReader obtain n d err reader' where
        up: "Read uc k reader = Some ((n, d, err), reader')"
        and rest: "(if err \<noteq> None
             then Some ((n, [], err), TrimReader reader' buffer trimmed skippedSpaces)
             else (let buffer1 = buffer @ filled (replicate k 0) (n, d, err)
                   in case trim_loop buffer1 0 0 trimmed skippedSpaces of
                        (firstSpacePos, trimmed1, skippedSpaces1) \<Rightarrow>
                          Read uc k
                            (TrimReader reader' (drop firstSpacePos buffer1) trimmed1
                               skippedSpaces1))) = Some y"
        by (auto split: Option.bind_splits prod.splits)
      from 1(1) [OF up] have ok: "result_ok k (n, d, err)" by simp
      show ?thesis
      proof (cases "err = None")
        case False
        with rest ok show ?thesis by (auto simp add: result_ok_def)
      next
        case True
        with rest obtain rdx where "Read uc k rdx = Some y"
          by (auto simp add: Let_def split: prod.splits)
        then show ?thesis by (rule 1(1))
      qed
    qed
  qed
qed


lemma case_scan_transform:
  "fst (case_scan uc up bs)
     = whole_case_transform uc up (take (length bs - length (snd (case_scan uc up bs))) bs)"
proof (induction uc up bs rule: case_scan.induct)
  case (1 uc up bs)
  show ?case
  proof (cases "bs = [] \<or> fst (DecodeRune bs) = RuneError")
    case True
    then show ?thesis by (auto simp add: case_scan_stop whole_case_transform.simps)
  next
    case False
    then have ne: "bs \<noteq> []" and ok: "fst (DecodeRune bs) \<noteq> RuneError" by simp_all
    define sz where "sz = snd (DecodeRune bs)"
    define rest where "rest = snd (case_scan uc up (drop sz bs))"
    have pos: "0 < sz" unfolding sz_def using ne by (rule DecodeRune_size_pos)
    have le: "sz \<le> length bs" unfolding sz_def by (rule DecodeRune_size_le)
    have rl: "length rest \<le> length bs - sz"
      unfolding rest_def using case_scan_length [of uc up "drop sz bs"] by simp
    have IH: "fst (case_scan uc up (drop sz bs))
        = whole_case_transform uc up (take (length bs - sz - length rest) (drop sz bs))"
      using 1 [OF _ surjective_pairing [symmetric]] False by (simp add: sz_def rest_def)
    define pre where "pre = take sz bs"
    define mid where "mid = take (length bs - sz - length rest) (drop sz bs)"
    have split: "take (length bs - length rest) bs = pre @ mid"
    proof -
      have "length bs - length rest = sz + (length bs - sz - length rest)"
        using rl le by simp
      then show ?thesis unfolding pre_def mid_def by (simp only: take_add)
    qed
    have "DecodeRune pre = DecodeRune bs"
      unfolding pre_def sz_def using ok by (rule DecodeRune_take)
    then have dec: "DecodeRune (pre @ mid) = DecodeRune bs"
      using DecodeRune_append [of pre mid] ok by simp
    have lp: "length pre = sz" using le by (simp add: pre_def)
    have t: "pre @ mid \<noteq> []" using lp pos by auto
    have dr: "drop sz (pre @ mid) = mid" using lp by simp
    have "whole_case_transform uc up (pre @ mid)
        = case_bytes uc up (fst (DecodeRune bs)) @ whole_case_transform uc up mid"
      by (subst whole_case_transform.simps)
         (simp only: t dec dr if_False case_prod_beta sz_def [symmetric])
    then have w: "whole_case_transform uc up (take (length bs - length rest) bs)
        = case_bytes uc up (fst (DecodeRune bs)) @ whole_case_transform uc up mid"
      by (simp only: split)
    have "case_scan uc up bs
        = (case_bytes uc up (fst (DecodeRune bs)) @ fst (case_scan uc up (drop sz bs)), rest)"
      using ok by (simp add: case_scan_go sz_def [symmetric] rest_def [symmetric])
    then show ?thesis
      by (simp only: fst_conv snd_conv w IH mid_def [symmetric])
  qed
qed

lemma case_scan_nothing:
  assumes "fst (case_scan uc up bs) = []"
  shows "snd (case_scan uc up bs) = bs"
proof (cases "bs = [] \<or> fst (DecodeRune bs) = RuneError")
  case True
  then show ?thesis by (auto simp add: case_scan_stop)
next
  case False
  then have "fst (case_scan uc up bs) \<noteq> []"
    by (simp add: case_scan_go case_bytes_def EncodeRune_not_Nil)
  with assms show ?thesis by simp
qed

text \<open>
  Claim C5. The upstream of a filter is the \<^verbatim>\<open>io.LimitedReader\<close> over the source, or
  another filter: any reader \<open>rd\<close> of the model. Whatever its read returns, a fill
  request of the case-folding filter loses nothing. When the upstream read returns an
  error, end of stream or another one, it has returned no bytes, and the filter returns
  that same error with a count of 0 and keeps its buffers. When the upstream read
  returns bytes \<open>d\<close>, the loop runs over \<open>buffer @ d\<close> up to an index \<open>i\<close>, and the case
  transform of the bytes before \<open>i\<close> is the output \<open>out\<close>: the filter delivers what the
  caller's buffer takes of \<open>out\<close>, keeps the rest of \<open>out\<close> as pending output and the
  bytes from \<open>i\<close> on in its buffer; when there is no output yet, all of \<open>buffer @ d\<close>
  stays in the buffer and the filter reads again. And while output is pending, the
  filter delivers from it, keeps the rest, and does not read upstream: an end of stream
  comes after that delivery.
\<close>

theorem C5_case_filter_keeps_every_byte:
  assumes "Read uc k rd = Some ((n, d, err), rd')"
  shows "(err \<noteq> None \<longrightarrow>
            n = 0 \<and> d = []
            \<and> Read uc k (CaseReader rd toUpper [] buffer)
                = Some ((0, [], err), CaseReader rd' toUpper [] buffer))
       \<and> (err = None \<longrightarrow>
            n = length d
            \<and> (let i = fst (case_loop uc toUpper (buffer @ d) 0 []);
                   out = whole_case_transform uc toUpper (take i (buffer @ d)) in
                 Read uc k (CaseReader rd toUpper [] buffer)
                   = (if out = [] then Read uc k (CaseReader rd' toUpper [] (buffer @ d))
                      else Some ((min k (length out), take k out, None),
                                 CaseReader rd' toUpper (drop k out) (drop i (buffer @ d))))))
       \<and> (mapped \<noteq> [] \<longrightarrow>
            Read uc k (CaseReader rd toUpper mapped buffer)
              = Some ((min k (length mapped), take k mapped, None),
                      CaseReader rd toUpper (drop k mapped) buffer))"
proof -
  have ok: "n = length d" "length d \<le> k" "err = None \<or> d = []"
    using Read_result_ok [OF assms] by (simp_all add: result_ok_def)
  have f: "filled (replicate k 0) (n, d, err) = d"
    using ok by (simp add: filled_ok)
  have i: "fst (case_loop uc toUpper (buffer @ d) 0 [])
      = length (buffer @ d) - length (snd (case_scan uc toUpper (buffer @ d)))"
    using case_loop_scan [of 0 "buffer @ d" uc toUpper "[]"] by simp
  have a: "err \<noteq> None \<longrightarrow>
            n = 0 \<and> d = []
            \<and> Read uc k (CaseReader rd toUpper [] buffer)
                = Some ((0, [], err), CaseReader rd' toUpper [] buffer)"
    using ok assms by (auto simp add: Read_CaseReader_fill)
  have b: "err = None \<longrightarrow>
            n = length d
            \<and> (let i = fst (case_loop uc toUpper (buffer @ d) 0 []);
                   out = whole_case_transform uc toUpper (take i (buffer @ d)) in
                 Read uc k (CaseReader rd toUpper [] buffer)
                   = (if out = [] then Read uc k (CaseReader rd' toUpper [] (buffer @ d))
                      else Some ((min k (length out), take k out, None),
                                 CaseReader rd' toUpper (drop k out) (drop i (buffer @ d)))))"
  proof
    assume none: "err = None"
    define bd where "bd = buffer @ d"
    define j where "j = length bd - length (snd (case_scan uc toUpper bd))"
    have r: "Read uc k (CaseReader rd toUpper [] buffer)
        = Read uc k (CaseReader rd' toUpper (fst (case_scan uc toUpper bd))
                       (snd (case_scan uc toUpper bd)))"
      using assms none by (simp add: Read_CaseReader_fill f [unfolded none] bd_def)
    have f1: "fst (case_scan uc toUpper bd) = whole_case_transform uc toUpper (take j bd)"
      unfolding j_def by (rule case_scan_transform)
    have f2: "snd (case_scan uc toUpper bd) = drop j bd"
      unfolding j_def by (rule case_scan_suffix [symmetric])
    have ij: "fst (case_loop uc toUpper bd 0 []) = j"
      unfolding j_def bd_def by (rule i)
    define out where "out = whole_case_transform uc toUpper (take j bd)"
    have r': "Read uc k (CaseReader rd toUpper [] buffer)
        = Read uc k (CaseReader rd' toUpper out (drop j bd))"
      unfolding r f1 f2 out_def ..
    have "Read uc k (CaseReader rd toUpper [] buffer)
        = (if out = [] then Read uc k (CaseReader rd' toUpper [] bd)
           else Some ((min k (length out), take k out, None),
                      CaseReader rd' toUpper (drop k out) (drop j bd)))"
    proof (cases "out = []")
      case True
      then have "fst (case_scan uc toUpper bd) = []" by (simp add: f1 out_def)
      then have "snd (case_scan uc toUpper bd) = bd" by (rule case_scan_nothing)
      then have "drop j bd = bd" by (simp add: f2)
      with True r' show ?thesis by simp
    next
      case False
      then show ?thesis by (simp add: r' Read_CaseReader_pending)
    qed
    then show "n = length d
       \<and> (let i = fst (case_loop uc toUpper (buffer @ d) 0 []);
              out = whole_case_transform uc toUpper (take i (buffer @ d)) in
            Read uc k (CaseReader rd toUpper [] buffer)
              = (if out = [] then Read uc k (CaseReader rd' toUpper [] (buffer @ d))
                 else Some ((min k (length out), take k out, None),
                            CaseReader rd' toUpper (drop k out) (drop i (buffer @ d)))))"
      unfolding Let_def bd_def [symmetric] ij out_def [symmetric] using ok(1) by simp
  qed
  have c: "mapped \<noteq> [] \<longrightarrow>
            Read uc k (CaseReader rd toUpper mapped buffer)
              = Some ((min k (length mapped), take k mapped, None),
                      CaseReader rd toUpper (drop k mapped) buffer)"
    by (simp add: Read_CaseReader_pending)
  from a b c show ?thesis by blast
qed

theorem C5_case_filter_witness:
  "Read ascii_tables 4 (LimitedReader (Src 0 [ReadError (ErrIO ''read error'')]) 100)
     = Some ((0, [], Some (ErrIO ''read error'')), LimitedReader (Src 0 []) 100)
   \<and> Read ascii_tables 4
        (CaseReader (LimitedReader (Src 0 [ReadError (ErrIO ''read error'')]) 100) True [] [0xC3])
     = Some ((0, [], Some (ErrIO ''read error'')),
             CaseReader (LimitedReader (Src 0 []) 100) True [] [0xC3])
   \<and> Read ascii_tables 4 (LimitedReader (Src 0 [Chunk [0xA9, 0x62, 0xC3]]) 100)
     = Some ((3, [0xA9, 0x62, 0xC3], None), LimitedReader (Src 3 []) 97)
   \<and> Read ascii_tables 4
        (CaseReader (LimitedReader (Src 0 [Chunk [0xA9, 0x62, 0xC3]]) 100) True [] [0xC3])
     = Some ((3, [0xC3, 0xA9, 0x42], None), CaseReader (LimitedReader (Src 3 []) 97) True [] [0xC3])
   \<and> Read ascii_tables 4
        (CaseReader (LimitedReader (Src 0 [Chunk [0xA9, 0x62, 0xC3]]) 100) True
           [0x41, 0x42, 0x43, 0x44, 0x45] [0xC3])
     = Some ((4, [0x41, 0x42, 0x43, 0x44], None),
             CaseReader (LimitedReader (Src 0 [Chunk [0xA9, 0x62, 0xC3]]) 100) True [0x45] [0xC3])"
proof -
  have e: "Read ascii_tables 4 (LimitedReader (Src 0 [ReadError (ErrIO ''read error'')]) 100)
     = Some ((0, [], Some (ErrIO ''read error'')), LimitedReader (Src 0 []) 100)"
    by (simp add: Read_Limited_Src)
  have g: "Read ascii_tables 4 (LimitedReader (Src 0 [Chunk [0xA9, 0x62, 0xC3]]) 100)
     = Some ((3, [0xA9, 0x62, 0xC3], None), LimitedReader (Src 3 []) 97)"
    by (simp add: Read_Limited_Src)
  have l: "case_loop ascii_tables True [0xC3, 0xA9, 0x62, 0xC3] 0 [] = (3, [0xC3, 0xA9, 0x42])"
    by (simp add: case_loop.simps decode2_def accept_def RuneError_def case_bytes_def
        unicode_ToUpper_def ascii_tables_def EncodeRune_def)
  have t: "whole_case_transform ascii_tables True [0xC3, 0xA9, 0x62] = [0xC3, 0xA9, 0x42]"
    by (simp add: whole_case_transform.simps decode2_def accept_def RuneError_def case_bytes_def
        unicode_ToUpper_def ascii_tables_def EncodeRune_def)
  show ?thesis
    using C5_case_filter_keeps_every_byte [OF e, of True "[0xC3]" "[0x01]"]
      C5_case_filter_keeps_every_byte [OF g, of True "[0xC3]" "[0x01]"]
      C5_case_filter_keeps_every_byte [OF g, of True "[0xC3]" "[0x41, 0x42, 0x43, 0x44, 0x45]"]
    by (simp add: e g l t Read_CaseReader_pending)
qed

text \<open>
  Claim C7. With more output pending than the caller's buffer takes, either filter fills
  the buffer completely and keeps the rest; with pending output that fits, it delivers
  all of it and reports its length. And whatever a read of any reader returns, a filter
  in any state included, the count is the number of bytes written into the caller's
  buffer, which is at most the length of the buffer.
\<close>

theorem C7_filter_delivery_count:
  "(k < length pending \<longrightarrow>
      Read uc k (CaseReader rd toUpper pending buffer)
        = Some ((k, take k pending, None), CaseReader rd toUpper (drop k pending) buffer)
      \<and> Read uc k (TrimReader rd buffer pending skippedSpaces)
        = Some ((k, take k pending, None), TrimReader rd buffer (drop k pending) skippedSpaces))
   \<and> (pending' \<noteq> [] \<and> length pending' \<le> k \<longrightarrow>
      Read uc k (CaseReader rd toUpper pending' buffer)
        = Some ((length pending', pending', None), CaseReader rd toUpper [] buffer)
      \<and> Read uc k (TrimReader rd buffer pending' skippedSpaces)
        = Some ((length pending', pending', None), TrimReader rd buffer [] skippedSpaces))
   \<and> (Read uc k r = Some ((n, d, err), r') \<longrightarrow> n = length d \<and> length d \<le> k)"
proof -
  have a: "k < length pending \<longrightarrow>
      Read uc k (CaseReader rd toUpper pending buffer)
        = Some ((k, take k pending, None), CaseReader rd toUpper (drop k pending) buffer)
      \<and> Read uc k (TrimReader rd buffer pending skippedSpaces)
        = Some ((k, take k pending, None), TrimReader rd buffer (drop k pending) skippedSpaces)"
  proof
    assume lt: "k < length pending"
    then have ne: "pending \<noteq> []" by auto
    from lt have m: "min k (length pending) = k" by simp
    show "Read uc k (CaseReader rd toUpper pending buffer)
        = Some ((k, take k pending, None), CaseReader rd toUpper (drop k pending) buffer)
      \<and> Read uc k (TrimReader rd buffer pending skippedSpaces)
        = Some ((k, take k pending, None), TrimReader rd buffer (drop k pending) skippedSpaces)"
      by (simp add: Read_CaseReader_pending [OF ne] Read_TrimReader_pending [OF ne] m)
  qed
  have b: "pending' \<noteq> [] \<and> length pending' \<le> k \<longrightarrow>
      Read uc k (CaseReader rd toUpper pending' buffer)
        = Some ((length pending', pending', None), CaseReader rd toUpper [] buffer)
      \<and> Read uc k (TrimReader rd buffer pending' skippedSpaces)
        = Some ((length pending', pending', None), TrimReader rd buffer [] skippedSpaces)"
    by (auto simp add: Read_CaseReader_pending Read_TrimReader_pending)
  have c: "Read uc k r = Some ((n, d, err), r') \<longrightarrow> n = length d \<and> length d \<le> k"
  proof
    assume "Read uc k r = Some ((n, d, err), r')"
    from Read_result_ok [OF this] show "n = length d \<and> length d \<le> k"
      by (simp add: result_ok_def)
  qed
  from a b c show ?thesis by blast
qed

theorem C7_filter_delivery_witness:
  "(2::nat) < length [0x41, 0x42, 0x43 :: byte]
   \<and> Read ascii_tables 2 (CaseReader (Src 0 []) True [0x41, 0x42, 0x43] [])
       = Some ((2, [0x41, 0x42], None), CaseReader (Src 0 []) True [0x43] [])
   \<and> Read ascii_tables 2 (TrimReader (Src 0 []) [] [0x41, 0x42, 0x43] True)
       = Some ((2, [0x41, 0x42], None), TrimReader (Src 0 []) [] [0x43] True)
   \<and> [0x43 :: byte] \<noteq> [] \<and> length [0x43 :: byte] \<le> 2
   \<and> Read ascii_tables 2 (CaseReader (Src 0 []) True [0x43] [])
       = Some ((1, [0x43], None), CaseReader (Src 0 []) True [] [])
   \<and> Read ascii_tables 2 (TrimReader (Src 0 []) [] [0x43] True)
       = Some ((1, [0x43], None), TrimReader (Src 0 []) [] [] True)
   \<and> Read ascii_tables 2
        (TrimReader (LimitedReader (Src 0 [ReadError (ErrIO ''read error'')]) 100) [0x20] [] True)
       = Some ((0, [], Some (ErrIO ''read error'')),
               TrimReader (LimitedReader (Src 0 []) 100) [0x20] [] True)
   \<and> (0::nat) = length ([] :: byte list) \<and> length ([] :: byte list) \<le> 2"
proof -
  have r: "Read ascii_tables 2
        (TrimReader (LimitedReader (Src 0 [ReadError (ErrIO ''read error'')]) 100) [0x20] [] True)
       = Some ((0, [], Some (ErrIO ''read error'')),
               TrimReader (LimitedReader (Src 0 []) 100) [0x20] [] True)"
    by (simp add: Read_TrimReader_fill Read_Limited_Src)
  show ?thesis
    using C7_filter_delivery_count [of 2 "[0x41, 0x42, 0x43]" ascii_tables "Src 0 []" True "[]" True
            "[0x43]"
            "TrimReader (LimitedReader (Src 0 [ReadError (ErrIO ''read error'')]) 100) [0x20] [] True"
            0 "[]" "Some (ErrIO ''read error'')"
            "TrimReader (LimitedReader (Src 0 []) 100) [0x20] [] True"]
    by (simp add: r)
qed

end
